theory Spec2Isabelle
  imports Complex_Main
begin

section \<open>A character-level recurrent network and its data reader\<close>

text \<open>
  The development follows \<^verbatim>\<open>createAndRunRNN_Model.py\<close>: the class
  \<^verbatim>\<open>DataReader\<close> (the windowed reader over the corpus) and the class
  \<^verbatim>\<open>RNN\<close> (forward pass, backward pass, Adagrad update, sampling).

  Conventions of the embedding.
  \<^item> A Python exception is a value \<open>Inl e\<close> of a result type \<open>error + 'a\<close>.
  \<^item> A numpy array of floats is a matrix of real numbers, a list of rows
    (\<open>real list list\<close>); a column vector of shape \<open>(n, 1)\<close> is \<open>n\<close> rows of one
    entry. Arithmetic is the arithmetic of the reals: rounding is not modelled,
    except at the two ends of the range of \<^verbatim>\<open>np.exp\<close> in \<^verbatim>\<open>sample\<close> and
    \<^verbatim>\<open>predict\<close>, where an exponential becomes \<^verbatim>\<open>inf\<close> or \<open>0\<close>.
  \<^item> A Python \<^verbatim>\<open>str\<close> is a list of symbols of an arbitrary type \<open>'c\<close>, one
    element per character.
  \<^item> A draw of numpy's random generator is read from an explicit stream of
    numbers in \<open>[0, 1)\<close> that the operation receives.
\<close>

datatype error = KeyError | IndexError | TypeError | ValueError | ZeroDivisionError

subsection \<open>DataReader\<close>

record 'c DataReader =
  data :: "'c list"
  char_to_ix :: "'c \<rightharpoonup> nat"
  ix_to_char :: "nat \<rightharpoonup> 'c"
  data_size :: nat
  vocab_size :: nat
  pointer :: nat
  seq_length :: nat

text \<open>
  The constructor, from the joined text \<open>txt\<close> of the file and the list
  \<open>chars\<close> that \<^verbatim>\<open>list(set(self.data))\<close> returns (its order is Python's
  choice, so it is an argument). A dict comprehension keeps the last value of a
  repeated key, hence the reversed association lists.
\<close>

definition DataReader_init :: "'c list \<Rightarrow> 'c list \<Rightarrow> nat \<Rightarrow> 'c DataReader" where
  "DataReader_init txt chars sl =
     \<lparr> data = txt,
       char_to_ix = map_of (rev (zip chars [0..<length chars])),
       ix_to_char = map_of (rev (zip [0..<length chars] chars)),
       data_size = length txt,
       vocab_size = length chars,
       pointer = 0,
       seq_length = sl \<rparr>"

text \<open>\<^verbatim>\<open>s[a:b]\<close> for \<open>0 \<le> a\<close>, \<open>0 \<le> b\<close>: the slice is cut at the end of \<open>s\<close>.\<close>

definition slice :: "'a list \<Rightarrow> nat \<Rightarrow> nat \<Rightarrow> 'a list" where
  "slice s a b = take (b - a) (drop a s)"

text \<open>\<^verbatim>\<open>[d[k] for k in ks]\<close>: the first missing key raises \<^verbatim>\<open>KeyError\<close>.\<close>

fun lookup_all :: "('k \<rightharpoonup> 'v) \<Rightarrow> 'k list \<Rightarrow> error + 'v list" where
  "lookup_all d [] = Inr []"
| "lookup_all d (k # ks) =
     (case d k of
        None \<Rightarrow> Inl KeyError
      | Some v \<Rightarrow> (case lookup_all d ks of Inl e \<Rightarrow> Inl e | Inr vs \<Rightarrow> Inr (v # vs)))"

definition next_batch :: "'c DataReader \<Rightarrow> error + ((nat list \<times> nat list) \<times> 'c DataReader)" where
  "next_batch r =
     (let input_start = pointer r;
          input_end = pointer r + seq_length r
      in case lookup_all (char_to_ix r) (slice (data r) input_start input_end) of
           Inl e \<Rightarrow> Inl e
         | Inr inputs \<Rightarrow>
             (case lookup_all (char_to_ix r) (slice (data r) (input_start + 1) (input_end + 1)) of
                Inl e \<Rightarrow> Inl e
              | Inr targets \<Rightarrow>
                  (let p = pointer r + seq_length r;
                       p' = (if p + seq_length r + 1 \<ge> data_size r then 0 else p)
                   in Inr ((inputs, targets), r\<lparr>pointer := p'\<rparr>))))"

definition just_started :: "'c DataReader \<Rightarrow> bool" where
  "just_started r = (pointer r = 0)"

text \<open>The reader after \<open>n\<close> calls of \<^verbatim>\<open>next_batch\<close>.\<close>

fun after_batches :: "nat \<Rightarrow> 'c DataReader \<Rightarrow> error + 'c DataReader" where
  "after_batches 0 r = Inr r"
| "after_batches (Suc n) r =
     (case next_batch r of Inl e \<Rightarrow> Inl e | Inr (_, r') \<Rightarrow> after_batches n r')"


subsection \<open>Arrays\<close>

text \<open>
  The numpy operations the model uses, on matrices as lists of rows. They are the
  operations of numpy where the shapes of the operands agree, which is how the
  program uses them; the theorems below state the shapes they rely on.
\<close>

type_synonym mat = "real list list"

text \<open>A dict from time steps to arrays; the forward pass stores the key \<open>-1\<close>.\<close>

type_synonym cache = "int \<rightharpoonup> mat"

definition zeros :: "nat \<Rightarrow> nat \<Rightarrow> mat" where
  "zeros r c = replicate r (replicate c 0)"

definition zeros_like :: "mat \<Rightarrow> mat" where
  "zeros_like m = map (map (\<lambda>_. 0)) m"

definition mat_map :: "(real \<Rightarrow> real) \<Rightarrow> mat \<Rightarrow> mat" where
  "mat_map f m = map (map f) m"

definition mat_add :: "mat \<Rightarrow> mat \<Rightarrow> mat" where
  "mat_add A B = map2 (map2 (+)) A B"

text \<open>The elementwise product \<^verbatim>\<open>A * B\<close>.\<close>

definition mat_mul :: "mat \<Rightarrow> mat \<Rightarrow> mat" where
  "mat_mul A B = map2 (map2 (*)) A B"

text \<open>\<^verbatim>\<open>A.T\<close> of a matrix with at least one row.\<close>

definition transp :: "mat \<Rightarrow> mat" where
  "transp m = (if m = [] then [] else map (\<lambda>j. map (\<lambda>row. row ! j) m) [0..<length (hd m)])"

text \<open>\<^verbatim>\<open>np.dot(A, B)\<close>, the matrix product.\<close>

definition dot :: "mat \<Rightarrow> mat \<Rightarrow> mat" where
  "dot A B = map (\<lambda>row. map (\<lambda>col. sum_list (map2 (*) row col)) (transp B)) A"

text \<open>\<^verbatim>\<open>x[i] = v\<close> and \<^verbatim>\<open>x[i] -= v\<close> on the row \<open>i\<close> of an array.\<close>

definition set_row :: "mat \<Rightarrow> nat \<Rightarrow> real \<Rightarrow> error + mat" where
  "set_row x i v =
     (if i < length x then Inr (x[i := map (\<lambda>_. v) (x ! i)]) else Inl IndexError)"

definition sub_row :: "mat \<Rightarrow> nat \<Rightarrow> real \<Rightarrow> error + mat" where
  "sub_row x i v =
     (if i < length x then Inr (x[i := map (\<lambda>e. e - v) (x ! i)]) else Inl IndexError)"

text \<open>\<^verbatim>\<open>np.clip(a, lo, hi)\<close>.\<close>

definition clip :: "real \<Rightarrow> real \<Rightarrow> mat \<Rightarrow> mat" where
  "clip lo hi m = mat_map (\<lambda>v. min hi (max lo v)) m"

text \<open>\<^verbatim>\<open>np.sum(a)\<close> adds all entries; \<^verbatim>\<open>a.ravel()\<close> lists them row by row.\<close>

definition np_sum :: "mat \<Rightarrow> real" where
  "np_sum m = sum_list (concat m)"

text \<open>\<^verbatim>\<open>np.max(a)\<close> raises \<^verbatim>\<open>ValueError\<close> on an array without entries.\<close>

definition np_max :: "mat \<Rightarrow> error + real" where
  "np_max m = (if concat m = [] then Inl ValueError else Inr (Max (set (concat m))))"

text \<open>
  \<^verbatim>\<open>np.random.uniform(low, high, (r, c))\<close>: entry \<open>(i, j)\<close> is
  \<open>low + (high - low) * u\<close> for the next draw \<open>u\<close> of the generator, row by row;
  \<open>us\<close> is the stream of draws and \<open>off\<close> the number of draws already taken.
\<close>

definition uniform :: "real \<Rightarrow> real \<Rightarrow> nat \<Rightarrow> nat \<Rightarrow> (nat \<Rightarrow> real) \<Rightarrow> nat \<Rightarrow> mat" where
  "uniform low high r c us off =
     map (\<lambda>i. map (\<lambda>j. low + (high - low) * us (off + i * c + j)) [0..<c]) [0..<r]"

text \<open>
  \<^verbatim>\<open>np.random.choice(range(k), p=p)\<close> with the draw \<open>u\<close>: numpy refuses an empty
  range, a \<open>p\<close> of another length, a negative entry and a \<open>p\<close> that does not add
  up to one; otherwise it returns the number of entries of the cumulative sums of
  \<open>p\<close> that are at most \<open>u\<close> (\<^verbatim>\<open>searchsorted\<close> from the right).
\<close>

fun cumsum :: "real \<Rightarrow> real list \<Rightarrow> real list" where
  "cumsum acc [] = []"
| "cumsum acc (q # qs) = (acc + q) # cumsum (acc + q) qs"

definition random_choice :: "nat \<Rightarrow> real list \<Rightarrow> real \<Rightarrow> error + nat" where
  "random_choice k p u =
     (if k = 0 \<or> length p \<noteq> k \<or> list_ex (\<lambda>q. q < 0) p \<or> sum_list p \<noteq> 1
      then Inl ValueError
      else Inr (length (takeWhile (\<lambda>c. c \<le> u) (cumsum 0 p))))"

text \<open>
  Where \<^verbatim>\<open>sample\<close> and \<^verbatim>\<open>predict\<close> exponentiate the logits themselves, the
  result need not be a finite double, and the model keeps numpy's special values:
  a float is a real number, \<^verbatim>\<open>inf\<close> or \<^verbatim>\<open>nan\<close>. \<^verbatim>\<open>np.exp\<close> returns
  \<^verbatim>\<open>inf\<close> above the largest double \<open>max_double\<close> and \<open>0\<close> below \<open>2 ^ - 1075\<close>,
  half the smallest positive double. The sum and the quotient are those of
  non-negative floats: a sum beyond \<open>max_double\<close> is \<^verbatim>\<open>inf\<close>, a finite number
  divided by \<^verbatim>\<open>inf\<close> is \<open>0\<close>, and \<^verbatim>\<open>inf / inf\<close> and \<^verbatim>\<open>0 / 0\<close> are \<^verbatim>\<open>nan\<close>.
  \<^verbatim>\<open>np.random.choice\<close> raises \<^verbatim>\<open>ValueError\<close> on a \<open>p\<close> with an entry that is
  not a finite number, and otherwise checks \<open>p\<close> as above.
\<close>

datatype npfloat = Fin real | PosInf | NaN

definition max_double :: real where
  "max_double = (2 - 1 / 2 ^ 52) * 2 ^ 1023"

definition np_exp :: "real \<Rightarrow> npfloat" where
  "np_exp v =
     (if max_double < exp v then PosInf
      else if exp v < 1 / 2 ^ 1075 then Fin 0
      else Fin (exp v))"

fun is_fin :: "npfloat \<Rightarrow> bool" where
  "is_fin (Fin a) = True"
| "is_fin PosInf = False"
| "is_fin NaN = False"

fun fin_val :: "npfloat \<Rightarrow> real" where
  "fin_val (Fin a) = a"
| "fin_val PosInf = 0"
| "fin_val NaN = 0"

definition np_fsum :: "npfloat list \<Rightarrow> npfloat" where
  "np_fsum xs =
     (if list_ex (\<lambda>v. v = NaN) xs then NaN
      else if list_ex (\<lambda>v. v = PosInf) xs then PosInf
      else if max_double < sum_list (map fin_val xs) then PosInf
      else Fin (sum_list (map fin_val xs)))"

fun np_div :: "npfloat \<Rightarrow> npfloat \<Rightarrow> npfloat" where
  "np_div NaN s = NaN"
| "np_div a NaN = NaN"
| "np_div PosInf PosInf = NaN"
| "np_div PosInf (Fin s) = PosInf"
| "np_div (Fin a) PosInf = Fin 0"
| "np_div (Fin a) (Fin s) = (if s = 0 then (if a = 0 then NaN else PosInf) else Fin (a / s))"

definition np_random_choice :: "nat \<Rightarrow> npfloat list \<Rightarrow> real \<Rightarrow> error + nat" where
  "np_random_choice k p u =
     (if list_all is_fin p then random_choice k (map fin_val p) u else Inl ValueError)"

text \<open>\<^verbatim>\<open>for t in ts: body\<close> on a state \<open>s\<close>; an exception ends the loop.\<close>

fun for_each :: "'a list \<Rightarrow> ('s \<Rightarrow> 'a \<Rightarrow> error + 's) \<Rightarrow> 's \<Rightarrow> error + 's" where
  "for_each [] body s = Inr s"
| "for_each (t # ts) body s =
     (case body s t of Inl e \<Rightarrow> Inl e | Inr s' \<Rightarrow> for_each ts body s')"

subsection \<open>RNN\<close>

text \<open>
  The fields \<open>pU\<close>, \<open>pV\<close>, \<open>pW\<close>, \<open>pb\<close>, \<open>pc\<close> are the parameters
  \<^verbatim>\<open>self.U\<close>, \<^verbatim>\<open>self.V\<close>, \<^verbatim>\<open>self.W\<close>, \<^verbatim>\<open>self.b\<close>, \<^verbatim>\<open>self.c\<close>;
  \<open>mU\<close>, ..., \<open>mc\<close> are the Adagrad memories of the same names.
\<close>

record RNN =
  hidden_size :: nat
  rnn_vocab_size :: nat
  rnn_seq_length :: nat
  learning_rate :: real
  pU :: mat
  pV :: mat
  pW :: mat
  pb :: mat
  pc :: mat
  mU :: mat
  mW :: mat
  mV :: mat
  mb :: mat
  mc :: mat

text \<open>
  The constructor. \<^verbatim>\<open>1. / vocab_size\<close> and \<^verbatim>\<open>1. / hidden_size\<close> are
  divisions of Python floats, which raise on a zero divisor. The three calls of
  \<^verbatim>\<open>np.random.uniform\<close> read the draws in the order \<open>U\<close>, \<open>V\<close>, \<open>W\<close>.
\<close>

definition RNN_init :: "nat \<Rightarrow> nat \<Rightarrow> nat \<Rightarrow> real \<Rightarrow> (nat \<Rightarrow> real) \<Rightarrow> error + RNN" where
  "RNN_init hidden vocab sl lr us =
     (if vocab = 0 \<or> hidden = 0 then Inl ZeroDivisionError
      else
        (let U = uniform (- sqrt (1 / real vocab)) (sqrt (1 / real vocab)) hidden vocab us 0;
             V = uniform (- sqrt (1 / real hidden)) (sqrt (1 / real hidden)) vocab hidden us
                   (hidden * vocab);
             W = uniform (- sqrt (1 / real hidden)) (sqrt (1 / real hidden)) hidden hidden us
                   (hidden * vocab + vocab * hidden);
             b = zeros hidden 1;
             c = zeros vocab 1
         in Inr \<lparr> hidden_size = hidden, rnn_vocab_size = vocab, rnn_seq_length = sl,
                  learning_rate = lr,
                  pU = U, pV = V, pW = W, pb = b, pc = c,
                  mU = zeros_like U, mW = zeros_like W, mV = zeros_like V,
                  mb = zeros_like b, mc = zeros_like c \<rparr>))"

definition softmax :: "mat \<Rightarrow> error + mat" where
  "softmax x =
     (case np_max x of
        Inl e \<Rightarrow> Inl e
      | Inr m \<Rightarrow> (let p = mat_map (\<lambda>v. exp (v - m)) x in Inr (mat_map (\<lambda>v. v / np_sum p) p)))"

text \<open>
  One round of the loop of \<^verbatim>\<open>forward\<close>; the state is the three dicts that are
  returned (\<^verbatim>\<open>os\<close> is written and never read again).
\<close>

definition forward_step ::
  "RNN \<Rightarrow> nat list \<Rightarrow> cache \<times> cache \<times> cache \<Rightarrow> nat \<Rightarrow> error + cache \<times> cache \<times> cache" where
  "forward_step rnn inputs s t =
     (case s of (xs, hs, ycap) \<Rightarrow>
        (case set_row (zeros (rnn_vocab_size rnn) 1) (inputs ! t) 1 of
           Inl e \<Rightarrow> Inl e
         | Inr x \<Rightarrow>
             (case hs (int t - 1) of
                None \<Rightarrow> Inl KeyError
              | Some hp \<Rightarrow>
                  (let h = mat_map tanh
                             (mat_add (mat_add (dot (pU rnn) x) (dot (pW rnn) hp)) (pb rnn));
                       os = mat_add (dot (pV rnn) h) (pc rnn)
                   in case softmax os of
                        Inl e \<Rightarrow> Inl e
                      | Inr y \<Rightarrow>
                          Inr (xs(int t \<mapsto> x), hs(int t \<mapsto> h), ycap(int t \<mapsto> y))))))"

definition forward :: "RNN \<Rightarrow> nat list \<Rightarrow> mat \<Rightarrow> error + cache \<times> cache \<times> cache" where
  "forward rnn inputs hprev =
     for_each [0..<length inputs] (forward_step rnn inputs)
       (Map.empty, [-1 \<mapsto> hprev], Map.empty)"

text \<open>One round of the loop of \<^verbatim>\<open>backward\<close>, on the five sums and \<^verbatim>\<open>dhnext\<close>.\<close>

type_synonym bptt = "mat \<times> mat \<times> mat \<times> mat \<times> mat \<times> mat"

definition backward_step ::
  "RNN \<Rightarrow> cache \<Rightarrow> cache \<Rightarrow> cache \<Rightarrow> nat list \<Rightarrow> bptt \<Rightarrow> nat \<Rightarrow> error + bptt" where
  "backward_step rnn xs hs ps targets s t =
     (case s of (dU, dW, dV, db, dc, dhnext) \<Rightarrow>
        (case ps (int t) of
           None \<Rightarrow> Inl KeyError
         | Some p \<Rightarrow>
             if length targets \<le> t then Inl IndexError
             else
               (case sub_row p (targets ! t) 1 of
                  Inl e \<Rightarrow> Inl e
                | Inr dy \<Rightarrow>
                    (case hs (int t) of
                       None \<Rightarrow> Inl KeyError
                     | Some h \<Rightarrow>
                         (let dV' = mat_add dV (dot dy (transp h));
                              dc' = mat_add dc dy;
                              dh = mat_add (dot (transp (pV rnn)) dy) dhnext;
                              dhrec = mat_mul (mat_map (\<lambda>v. 1 - v) (mat_mul h h)) dh;
                              db' = mat_add db dhrec
                          in case xs (int t) of
                               None \<Rightarrow> Inl KeyError
                             | Some x \<Rightarrow>
                                 (case hs (int t - 1) of
                                    None \<Rightarrow> Inl KeyError
                                  | Some hp \<Rightarrow>
                                      Inr (mat_add dU (dot dhrec (transp x)),
                                           mat_add dW (dot dhrec (transp hp)),
                                           dV', db', dc',
                                           dot (transp (pW rnn)) dhrec)))))))"

definition backward ::
  "RNN \<Rightarrow> cache \<Rightarrow> cache \<Rightarrow> cache \<Rightarrow> nat list \<Rightarrow> error + mat \<times> mat \<times> mat \<times> mat \<times> mat" where
  "backward rnn xs hs ps targets =
     (case hs 0 of
        None \<Rightarrow> Inl KeyError
      | Some h0 \<Rightarrow>
          (case for_each (rev [0..<rnn_seq_length rnn]) (backward_step rnn xs hs ps targets)
                  (zeros_like (pU rnn), zeros_like (pW rnn), zeros_like (pV rnn),
                   zeros_like (pb rnn), zeros_like (pc rnn), zeros_like h0) of
             Inl e \<Rightarrow> Inl e
           | Inr (dU, dW, dV, db, dc, dhnext) \<Rightarrow>
               Inr (clip (-5) 5 dU, clip (-5) 5 dW, clip (-5) 5 dV,
                    clip (-5) 5 db, clip (-5) 5 dc)))"


text \<open>
  \<^verbatim>\<open>loss\<close> is called with the dict \<^verbatim>\<open>ps\<close> that \<^verbatim>\<open>forward\<close> returns and the
  list \<^verbatim>\<open>targets\<close> of the reader. Python's binary minus asks the left operand's
  type, then the right one's; neither \<^verbatim>\<open>dict\<close> nor \<^verbatim>\<open>list\<close> implements it.
\<close>

datatype pyval = PyDict cache | PyList "nat list"

fun py_sub :: "pyval \<Rightarrow> pyval \<Rightarrow> error + mat" where
  "py_sub (PyDict d) y = Inl TypeError"
| "py_sub (PyList l) y = Inl TypeError"

definition np_mean :: "mat \<Rightarrow> real" where
  "np_mean m = np_sum m / real (length (concat m))"

definition loss :: "cache \<Rightarrow> nat list \<Rightarrow> error + real" where
  "loss ps targets =
     (case py_sub (PyDict ps) (PyList targets) of
        Inl e \<Rightarrow> Inl e
      | Inr d \<Rightarrow> Inr (np_mean (mat_map (\<lambda>v. v * v) d)))"

text \<open>
  One round of the loop of \<^verbatim>\<open>update_model\<close>: the new parameter and the new
  memory. The constant \<^verbatim>\<open>1e-8\<close> is \<open>1 / 10 ^ 8\<close>.
\<close>

definition mat_div :: "mat \<Rightarrow> mat \<Rightarrow> mat" where
  "mat_div A B = map2 (map2 (/)) A B"

definition adagrad :: "real \<Rightarrow> mat \<Rightarrow> mat \<Rightarrow> mat \<Rightarrow> mat \<times> mat" where
  "adagrad lr param dparam mem =
     (let mem' = mat_add mem (mat_mul dparam dparam)
      in (mat_add param
            (mat_div (mat_map (\<lambda>d. - lr * d) dparam)
                     (mat_map (\<lambda>m. sqrt (m + 1 / 10 ^ 8)) mem')),
          mem'))"

definition update_model :: "RNN \<Rightarrow> mat \<Rightarrow> mat \<Rightarrow> mat \<Rightarrow> mat \<Rightarrow> mat \<Rightarrow> RNN" where
  "update_model rnn dU dW dV db dc =
     (let lr = learning_rate rnn;
          (U', mU') = adagrad lr (pU rnn) dU (mU rnn);
          (W', mW') = adagrad lr (pW rnn) dW (mW rnn);
          (V', mV') = adagrad lr (pV rnn) dV (mV rnn);
          (b', mb') = adagrad lr (pb rnn) db (mb rnn);
          (c', mc') = adagrad lr (pc rnn) dc (mc rnn)
      in rnn\<lparr> pU := U', pW := W', pV := V', pb := b', pc := c',
               mU := mU', mW := mW', mV := mV', mb := mb', mc := mc' \<rparr>)"

text \<open>
  One round of the loop of \<^verbatim>\<open>sample\<close> on \<^verbatim>\<open>h\<close>, \<^verbatim>\<open>x\<close> and \<^verbatim>\<open>ixes\<close>;
  round \<open>t\<close> reads the draw \<open>us t\<close>.
\<close>

definition sample_step ::
  "RNN \<Rightarrow> (nat \<Rightarrow> real) \<Rightarrow> mat \<times> mat \<times> nat list \<Rightarrow> nat \<Rightarrow> error + mat \<times> mat \<times> nat list" where
  "sample_step rnn us s t =
     (case s of (h, x, ixes) \<Rightarrow>
        (let h' = mat_map tanh (mat_add (mat_add (dot (pU rnn) x) (dot (pW rnn) h)) (pb rnn));
             y = mat_add (dot (pV rnn) h') (pc rnn);
             p = map (map (\<lambda>e. np_div e (np_fsum (concat (map (map np_exp) y)))))
                   (map (map np_exp) y)
         in case np_random_choice (rnn_vocab_size rnn) (concat p) (us t) of
              Inl e \<Rightarrow> Inl e
            | Inr ix \<Rightarrow>
                (case set_row (zeros (rnn_vocab_size rnn) 1) ix 1 of
                   Inl e \<Rightarrow> Inl e
                 | Inr x' \<Rightarrow> Inr (h', x', ixes @ [ix]))))"

definition sample :: "RNN \<Rightarrow> mat \<Rightarrow> nat \<Rightarrow> nat \<Rightarrow> (nat \<Rightarrow> real) \<Rightarrow> error + nat list" where
  "sample rnn h seed_ix n us =
     (case set_row (zeros (rnn_vocab_size rnn) 1) seed_ix 1 of
        Inl e \<Rightarrow> Inl e
      | Inr x \<Rightarrow>
          (case for_each [0..<n] (sample_step rnn us) (h, x, []) of
             Inl e \<Rightarrow> Inl e
           | Inr (h', x', ixes) \<Rightarrow> Inr ixes))"

text \<open>
  \<^verbatim>\<open>predict\<close>: the loop over the characters of \<^verbatim>\<open>start\<close>, which writes a one
  into the same \<^verbatim>\<open>x\<close> for every character; the fresh \<^verbatim>\<open>h\<close>; the loop that
  draws \<open>n\<close> indices; the decoding of all indices.
\<close>

definition predict_seed_step ::
  "'c DataReader \<Rightarrow> 'c list \<Rightarrow> mat \<times> nat list \<Rightarrow> nat \<Rightarrow> error + mat \<times> nat list" where
  "predict_seed_step data_reader chars s i =
     (case s of (x, ixes) \<Rightarrow>
        (case char_to_ix data_reader (chars ! i) of
           None \<Rightarrow> Inl KeyError
         | Some ix \<Rightarrow>
             (case set_row x ix 1 of
                Inl e \<Rightarrow> Inl e
              | Inr x' \<Rightarrow> Inr (x', ixes @ [ix]))))"

definition predict_seed :: "RNN \<Rightarrow> 'c DataReader \<Rightarrow> 'c list \<Rightarrow> error + mat \<times> nat list \<times> mat" where
  "predict_seed rnn data_reader start =
     (case for_each [0..<length start] (predict_seed_step data_reader start)
             (zeros (rnn_vocab_size rnn) 1, []) of
        Inl e \<Rightarrow> Inl e
      | Inr (x, ixes) \<Rightarrow> Inr (x, ixes, zeros (hidden_size rnn) 1))"

definition predict_step ::
  "RNN \<Rightarrow> (nat \<Rightarrow> real) \<Rightarrow> mat \<times> mat \<times> nat list \<Rightarrow> nat \<Rightarrow> error + mat \<times> mat \<times> nat list" where
  "predict_step rnn us s t =
     (case s of (h, x, ixes) \<Rightarrow>
        (let h' = mat_map tanh (mat_add (mat_add (dot (pU rnn) x) (dot (pW rnn) h)) (pb rnn));
             y = mat_add (dot (pV rnn) h') (pc rnn);
             p = map (map (\<lambda>e. np_div e (np_fsum (concat (map (map np_exp) y)))))
                   (map (map np_exp) y)
         in case np_random_choice (rnn_vocab_size rnn) (concat p) (us t) of
              Inl e \<Rightarrow> Inl e
            | Inr ix \<Rightarrow>
                (case set_row (zeros (rnn_vocab_size rnn) 1) ix 1 of
                   Inl e \<Rightarrow> Inl e
                 | Inr x' \<Rightarrow> Inr (h', x', ixes @ [ix]))))"

definition predict ::
  "RNN \<Rightarrow> 'c DataReader \<Rightarrow> 'c list \<Rightarrow> nat \<Rightarrow> (nat \<Rightarrow> real) \<Rightarrow> error + 'c list" where
  "predict rnn data_reader start n us =
     (case predict_seed rnn data_reader start of
        Inl e \<Rightarrow> Inl e
      | Inr (x, ixes, h) \<Rightarrow>
          (case for_each [0..<n] (predict_step rnn us) (h, x, ixes) of
             Inl e \<Rightarrow> Inl e
           | Inr (h', x', ixes') \<Rightarrow> lookup_all (ix_to_char data_reader) ixes'))"

text \<open>
  The methods of the class as operations on the object: \<^verbatim>\<open>update_model\<close> is the
  only one that assigns to a field or writes into an array of \<^verbatim>\<open>self\<close>; the
  others work on copies and fresh arrays and leave the object as it was.
\<close>

datatype core_op =
    Forward | Backward | Loss | Sample | Predict
  | Update_model mat mat mat mat mat

fun after_op :: "RNN \<Rightarrow> core_op \<Rightarrow> RNN" where
  "after_op rnn (Update_model dU dW dV db dc) = update_model rnn dU dW dV db dc"
| "after_op rnn Forward = rnn"
| "after_op rnn Backward = rnn"
| "after_op rnn Loss = rnn"
| "after_op rnn Sample = rnn"
| "after_op rnn Predict = rnn"


section \<open>Predicates used in the statements\<close>

text \<open>
  What every reader built from the text \<open>txt\<close> and the enumeration \<open>chars\<close>
  satisfies between two calls: the cursor is at the start, or a whole window and
  one more symbol lie ahead of it.
\<close>

definition reader_inv :: "'c list \<Rightarrow> 'c list \<Rightarrow> nat \<Rightarrow> 'c DataReader \<Rightarrow> bool" where
  "reader_inv txt chars sl r \<longleftrightarrow>
     data r = txt \<and> char_to_ix r = map_of (rev (zip chars [0..<length chars])) \<and>
     data_size r = length txt \<and> seq_length r = sl \<and>
     (pointer r = 0 \<or> pointer r + sl + 1 < length txt)"

text \<open>
  Shapes, the elementwise order and elementwise predicates of arrays; the Adagrad
  memories of an object have the shapes of its parameters and no negative entry;
  the gradients of a call of \<^verbatim>\<open>update_model\<close> have the shapes of the parameters.
\<close>

definition same_shape :: "mat \<Rightarrow> mat \<Rightarrow> bool" where
  "same_shape A B \<longleftrightarrow> map length A = map length B"

definition mat_le :: "mat \<Rightarrow> mat \<Rightarrow> bool" where
  "mat_le A B \<longleftrightarrow> list_all2 (list_all2 (\<le>)) A B"

definition mat_all :: "(real \<Rightarrow> bool) \<Rightarrow> mat \<Rightarrow> bool" where
  "mat_all P m \<longleftrightarrow> list_all (list_all P) m"

definition mems_shaped :: "RNN \<Rightarrow> bool" where
  "mems_shaped rnn \<longleftrightarrow>
     same_shape (mU rnn) (pU rnn) \<and> same_shape (mW rnn) (pW rnn) \<and>
     same_shape (mV rnn) (pV rnn) \<and> same_shape (mb rnn) (pb rnn) \<and>
     same_shape (mc rnn) (pc rnn)"

definition mems_nonneg :: "RNN \<Rightarrow> bool" where
  "mems_nonneg rnn \<longleftrightarrow>
     mat_all (\<lambda>m. 0 \<le> m) (mU rnn) \<and> mat_all (\<lambda>m. 0 \<le> m) (mW rnn) \<and>
     mat_all (\<lambda>m. 0 \<le> m) (mV rnn) \<and> mat_all (\<lambda>m. 0 \<le> m) (mb rnn) \<and>
     mat_all (\<lambda>m. 0 \<le> m) (mc rnn)"

fun op_shaped :: "RNN \<Rightarrow> core_op \<Rightarrow> bool" where
  "op_shaped rnn (Update_model dU dW dV db dc) \<longleftrightarrow>
     same_shape dU (pU rnn) \<and> same_shape dW (pW rnn) \<and> same_shape dV (pV rnn) \<and>
     same_shape db (pb rnn) \<and> same_shape dc (pc rnn)"
| "op_shaped rnn Forward \<longleftrightarrow> True"
| "op_shaped rnn Backward \<longleftrightarrow> True"
| "op_shaped rnn Loss \<longleftrightarrow> True"
| "op_shaped rnn Sample \<longleftrightarrow> True"
| "op_shaped rnn Predict \<longleftrightarrow> True"

fun ops_shaped :: "RNN \<Rightarrow> core_op list \<Rightarrow> bool" where
  "ops_shaped rnn [] \<longleftrightarrow> True"
| "ops_shaped rnn (a # ops) \<longleftrightarrow> op_shaped rnn a \<and> ops_shaped (after_op rnn a) ops"

text \<open>The array \<^verbatim>\<open>np.exp(y)\<close> of a round of \<^verbatim>\<open>sample\<close> that starts from \<open>h\<close> and \<open>x\<close>.\<close>

definition sample_exp :: "RNN \<Rightarrow> mat \<Rightarrow> mat \<Rightarrow> mat" where
  "sample_exp rnn h x =
     (let h' = mat_map tanh (mat_add (mat_add (dot (pU rnn) x) (dot (pW rnn) h)) (pb rnn));
          y = mat_add (dot (pV rnn) h') (pc rnn)
      in mat_map exp y)"

text \<open>Example values: a vector of logits and two small networks.\<close>

definition logits2 :: mat where
  "logits2 = [[0], [0]]"

definition tiny_rnn :: RNN where
  "tiny_rnn =
     \<lparr> hidden_size = 1, rnn_vocab_size = 2, rnn_seq_length = 1, learning_rate = 1 / 10,
       pU = [[0, 0]], pV = [[0], [0]], pW = [[0]], pb = [[0]], pc = [[0], [0]],
       mU = [[1, 0]], mW = [[0]], mV = [[0], [0]], mb = [[0]], mc = [[0], [4]] \<rparr>"

definition large_bias_rnn :: RNN where
  "large_bias_rnn =
     \<lparr> hidden_size = 1, rnn_vocab_size = 1, rnn_seq_length = 1, learning_rate = 1 / 10,
       pU = [[0]], pV = [[0]], pW = [[0]], pb = [[0]], pc = [[2000]],
       mU = [[0]], mW = [[0]], mV = [[0]], mb = [[0]], mc = [[0]] \<rparr>"

text \<open>
  An array that \<^verbatim>\<open>np.random.uniform(-a, a, (r, c))\<close> returns on the draws \<open>us\<close>,
  for some shape and from some position of the stream; the calls of
  \<^verbatim>\<open>update_model\<close> among the calls of methods; a stream whose draws are all \<open>3/4\<close>.
\<close>

definition drawn_uniform :: "real \<Rightarrow> (nat \<Rightarrow> real) \<Rightarrow> mat \<Rightarrow> bool" where
  "drawn_uniform a us m \<longleftrightarrow> (\<exists>r c off. m = uniform (- a) a r c us off)"

definition is_update :: "core_op \<Rightarrow> bool" where
  "is_update a = (case a of Update_model dU dW dV db dc \<Rightarrow> True | _ \<Rightarrow> False)"

definition draws34 :: "nat \<Rightarrow> real" where
  "draws34 k = 3 / 4"

text \<open>
  An array of \<open>r\<close> rows of \<open>c\<close> entries; a network whose sizes are positive and
  whose parameters have the shapes the constructor gives them; a reader whose two
  dicts enumerate the characters \<open>chars\<close>.
\<close>

definition has_shape :: "nat \<Rightarrow> nat \<Rightarrow> mat \<Rightarrow> bool" where
  "has_shape r c m \<longleftrightarrow> length m = r \<and> list_all (\<lambda>row. length row = c) m"

definition wf_rnn :: "RNN \<Rightarrow> bool" where
  "wf_rnn rnn \<longleftrightarrow>
     0 < hidden_size rnn \<and> 0 < rnn_vocab_size rnn \<and>
     has_shape (hidden_size rnn) (rnn_vocab_size rnn) (pU rnn) \<and>
     has_shape (rnn_vocab_size rnn) (hidden_size rnn) (pV rnn) \<and>
     has_shape (hidden_size rnn) (hidden_size rnn) (pW rnn) \<and>
     has_shape (hidden_size rnn) 1 (pb rnn) \<and>
     has_shape (rnn_vocab_size rnn) 1 (pc rnn)"

definition vocab_of :: "'c list \<Rightarrow> 'c DataReader \<Rightarrow> bool" where
  "vocab_of chars r \<longleftrightarrow>
     char_to_ix r = map_of (rev (zip chars [0..<length chars])) \<and>
     ix_to_char r = map_of (rev (zip [0..<length chars] chars)) \<and>
     vocab_size r = length chars"

text \<open>
  The logits of a round of \<^verbatim>\<open>sample\<close> or \<^verbatim>\<open>predict\<close> are in range when
  \<^verbatim>\<open>np.exp\<close> of at least one of them is not rounded to zero and the sum of their
  exponentials is at most \<open>max_double\<close>: then no entry of \<^verbatim>\<open>np.exp(y)\<close> is
  \<^verbatim>\<open>inf\<close> and their sum is a positive finite number. A network samples in range
  when this holds for the logits of every hidden state that \<^verbatim>\<open>np.tanh\<close> can
  produce, a column of numbers strictly between \<open>-1\<close> and \<open>1\<close>.
\<close>

definition logits_in_range :: "real list \<Rightarrow> bool" where
  "logits_in_range ys \<longleftrightarrow>
     list_ex (\<lambda>v. 1 / 2 ^ 1075 \<le> exp v) ys \<and> sum_list (map exp ys) \<le> max_double"

definition sampling_in_range :: "RNN \<Rightarrow> bool" where
  "sampling_in_range rnn \<longleftrightarrow>
     (\<forall>h. has_shape (hidden_size rnn) 1 h \<and> mat_all (\<lambda>e. \<bar>e\<bar> < 1) h \<longrightarrow>
          logits_in_range (concat (mat_add (dot (pV rnn) h) (pc rnn))))"

text \<open>
  The column of \<open>v\<close> entries with a one at every index of \<open>ixes\<close> and a zero
  elsewhere.
\<close>

definition multi_hot :: "nat \<Rightarrow> nat list \<Rightarrow> mat" where
  "multi_hot v ixes = map (\<lambda>i. [if i \<in> set ixes then 1 else 0]) [0..<v]"

text \<open>
  \<^verbatim>\<open>predict\<close> as the specification describes it: the seed is fed through the
  recurrence one symbol at a time, from a zero hidden state, and the generation
  continues from there with the procedure of \<^verbatim>\<open>sample\<close>. A forward pass over the
  seed without its last symbol gives the hidden state before that symbol;
  \<^verbatim>\<open>sample\<close> then feeds the last symbol and draws, so its first draw is made
  from the hidden state of a forward pass over the whole seed.
\<close>

definition predict_spec ::
  "RNN \<Rightarrow> 'c DataReader \<Rightarrow> 'c list \<Rightarrow> nat \<Rightarrow> (nat \<Rightarrow> real) \<Rightarrow> error + 'c list" where
  "predict_spec rnn data_reader start n us =
     (case lookup_all (char_to_ix data_reader) start of
        Inl e \<Rightarrow> Inl e
      | Inr ixes \<Rightarrow>
          (case forward rnn (butlast ixes) (zeros (hidden_size rnn) 1) of
             Inl e \<Rightarrow> Inl e
           | Inr (xs, hs, ps) \<Rightarrow>
               (case hs (int (length ixes) - 2) of
                  None \<Rightarrow> Inl KeyError
                | Some h \<Rightarrow>
                    (case sample rnn h (last ixes) n us of
                       Inl e \<Rightarrow> Inl e
                     | Inr gen \<Rightarrow> lookup_all (ix_to_char data_reader) (ixes @ gen)))))"

text \<open>
  Example values: a network of two symbols whose hidden unit computes
  \<open>tanh (x\<^sub>0 - x\<^sub>1)\<close> of its input \<open>x\<close>, the reader of the text \<open>ab\<close>, and a stream
  whose draws are all \<open>1/4\<close>.
\<close>

definition ab_rnn :: RNN where
  "ab_rnn =
     \<lparr> hidden_size = 1, rnn_vocab_size = 2, rnn_seq_length = 2, learning_rate = 1 / 10,
       pU = [[1, - 1]], pV = [[4], [0]], pW = [[0]], pb = [[0]], pc = [[0], [0]],
       mU = [[0, 0]], mW = [[0]], mV = [[0], [0]], mb = [[0]], mc = [[0], [0]] \<rparr>"

definition ab_reader :: "char DataReader" where
  "ab_reader = DataReader_init ''ab'' ''ab'' 1"

definition draws14 :: "nat \<Rightarrow> real" where
  "draws14 k = 1 / 4"

text \<open>
  Backpropagation through time as a recurrence, for a window of
  \<open>n = seq_length\<close> steps. At step \<open>t\<close>, \<open>dy\<close> is \<open>prob[t]\<close> with the row
  \<open>targets[t]\<close> decremented by \<open>1\<close>, and
  \<open>dh_raw = (1 - hidden[t]\<^sup>2) * (V\<^sup>T dy + dh_next)\<close>, where \<open>dh_next\<close> is zero at the
  last step and \<open>W\<^sup>T dh_raw\<close> of step \<open>t + 1\<close> before. Each gradient is the sum of
  its terms, added to zero from the last step down to the first (\<open>acc_from\<close>),
  and then clipped to \<open>[-5, 5]\<close>.
\<close>

definition dy_spec :: "cache \<Rightarrow> nat list \<Rightarrow> nat \<Rightarrow> mat" where
  "dy_spec ps targets t =
     (the (ps (int t)))[targets ! t := map (\<lambda>e. e - 1) (the (ps (int t)) ! (targets ! t))]"

function dh_raw_spec :: "RNN \<Rightarrow> cache \<Rightarrow> cache \<Rightarrow> nat list \<Rightarrow> nat \<Rightarrow> mat" where
  "dh_raw_spec rnn hs ps targets t =
     mat_mul (mat_map (\<lambda>v. 1 - v) (mat_mul (the (hs (int t))) (the (hs (int t)))))
       (mat_add (dot (transp (pV rnn)) (dy_spec ps targets t))
          (if rnn_seq_length rnn \<le> Suc t then zeros_like (the (hs 0))
           else dot (transp (pW rnn)) (dh_raw_spec rnn hs ps targets (Suc t))))"
  by pat_completeness auto
termination
  by (relation "measure (\<lambda>(rnn, hs, ps, targets, t). rnn_seq_length rnn - t)") auto

declare dh_raw_spec.simps [simp del]

definition acc_from :: "mat \<Rightarrow> (nat \<Rightarrow> mat) \<Rightarrow> nat \<Rightarrow> nat \<Rightarrow> mat" where
  "acc_from z f j n = foldl mat_add z (map f (rev [j..<n]))"

definition bptt_spec ::
  "RNN \<Rightarrow> cache \<Rightarrow> cache \<Rightarrow> cache \<Rightarrow> nat list \<Rightarrow> mat \<times> mat \<times> mat \<times> mat \<times> mat" where
  "bptt_spec rnn xs hs ps targets =
     (let n = rnn_seq_length rnn;
          dy = dy_spec ps targets;
          dh_raw = dh_raw_spec rnn hs ps targets
      in (clip (-5) 5
            (acc_from (zeros_like (pU rnn)) (\<lambda>t. dot (dh_raw t) (transp (the (xs (int t))))) 0 n),
          clip (-5) 5
            (acc_from (zeros_like (pW rnn)) (\<lambda>t. dot (dh_raw t) (transp (the (hs (int t - 1))))) 0 n),
          clip (-5) 5
            (acc_from (zeros_like (pV rnn)) (\<lambda>t. dot (dy t) (transp (the (hs (int t))))) 0 n),
          clip (-5) 5 (acc_from (zeros_like (pb rnn)) dh_raw 0 n),
          clip (-5) 5 (acc_from (zeros_like (pc rnn)) dy 0 n)))"

text \<open>
  The five sums and \<^verbatim>\<open>dhnext\<close> when the steps \<open>n - 1\<close> down to \<open>j\<close> are done;
  the dicts of a forward pass over \<open>n\<close> steps hold every key the backward pass
  reads, and every \<open>prob[t]\<close> has \<open>v\<close> rows.
\<close>

definition bptt_at :: "RNN \<Rightarrow> cache \<Rightarrow> cache \<Rightarrow> cache \<Rightarrow> nat list \<Rightarrow> nat \<Rightarrow> bptt" where
  "bptt_at rnn xs hs ps targets j =
     (let n = rnn_seq_length rnn;
          dy = dy_spec ps targets;
          dh_raw = dh_raw_spec rnn hs ps targets
      in (acc_from (zeros_like (pU rnn)) (\<lambda>t. dot (dh_raw t) (transp (the (xs (int t))))) j n,
          acc_from (zeros_like (pW rnn)) (\<lambda>t. dot (dh_raw t) (transp (the (hs (int t - 1))))) j n,
          acc_from (zeros_like (pV rnn)) (\<lambda>t. dot (dy t) (transp (the (hs (int t))))) j n,
          acc_from (zeros_like (pb rnn)) dh_raw j n,
          acc_from (zeros_like (pc rnn)) dy j n,
          if n \<le> j then zeros_like (the (hs 0)) else dot (transp (pW rnn)) (dh_raw j)))"

definition bundle_ok :: "nat \<Rightarrow> nat \<Rightarrow> cache \<times> cache \<times> cache \<Rightarrow> bool" where
  "bundle_ok v n s \<longleftrightarrow>
     (case s of (xs, hs, ps) \<Rightarrow>
        hs (- 1) \<noteq> None \<and>
        (\<forall>t<n. xs (int t) \<noteq> None \<and> hs (int t) \<noteq> None \<and>
               (\<exists>p. ps (int t) = Some p \<and> length p = v)))"

text \<open>The network \<open>tiny_rnn\<close> with windows of length zero.\<close>

definition zero_window_rnn :: RNN where
  "zero_window_rnn = tiny_rnn\<lparr>rnn_seq_length := 0\<rparr>"

section \<open>The windowed reader\<close>

lemma lookup_all_total:
  "set ks \<subseteq> dom d \<Longrightarrow> lookup_all d ks = Inr (map (\<lambda>k. the (d k)) ks)"
  by (induction ks) auto

lemma dom_char_to_ix:
  "dom (map_of (rev (zip chars [0..<length chars]))) = set chars"
  by (simp add: dom_map_of_conv_image_fst flip: set_map)

lemma slice_subset: "set (slice s a b) \<subseteq> set s"
  unfolding slice_def by (meson order_trans set_drop_subset set_take_subset)

lemma length_slice: "b \<le> length s \<Longrightarrow> length (slice s a b) = b - a"
  by (simp add: slice_def)

lemma nth_slice: "b \<le> length s \<Longrightarrow> i < b - a \<Longrightarrow> slice s a b ! i = s ! (a + i)"
  by (simp add: slice_def)

lemma next_batch_inv:
  assumes "reader_inv txt chars sl r" "set chars = set txt" "sl + 1 \<le> length txt"
  shows "\<exists>r'. next_batch r =
           Inr ((map (\<lambda>k. the (char_to_ix r k)) (slice txt (pointer r) (pointer r + sl)),
                 map (\<lambda>k. the (char_to_ix r k)) (slice txt (pointer r + 1) (pointer r + sl + 1))), r')
         \<and> reader_inv txt chars sl r'
         \<and> pointer r' = (if length txt \<le> pointer r + sl + sl + 1 then 0 else pointer r + sl)"
proof -
  have d: "dom (char_to_ix r) = set txt"
    using assms(1,2) by (simp add: reader_inv_def dom_char_to_ix)
  have a: "\<And>a b. lookup_all (char_to_ix r) (slice txt a b) = Inr (map (\<lambda>k. the (char_to_ix r k)) (slice txt a b))"
    by (rule lookup_all_total) (simp add: d slice_subset)
  have t: "data r = txt" "data_size r = length txt" "seq_length r = sl"
    using assms(1) by (simp_all add: reader_inv_def)
  have p: "pointer r = 0 \<or> pointer r + sl + 1 < length txt"
    using assms(1) by (simp add: reader_inv_def)
  show ?thesis
    unfolding next_batch_def Let_def t a
    using assms(1) by (auto simp: reader_inv_def)
qed


lemma init_inv: "reader_inv txt chars sl (DataReader_init txt chars sl)"
  by (simp add: reader_inv_def DataReader_init_def)

lemma after_batches_inv:
  assumes "set chars = set txt" "sl + 1 \<le> length txt"
  shows "reader_inv txt chars sl r \<Longrightarrow>
         \<exists>r'. after_batches n r = Inr r' \<and> reader_inv txt chars sl r'"
proof (induction n arbitrary: r)
  case 0
  then show ?case by simp
next
  case (Suc n)
  from next_batch_inv [OF Suc.prems assms] obtain b r1
    where "next_batch r = Inr (b, r1)" "reader_inv txt chars sl r1" by blast
  with Suc.IH [of r1] show ?case by simp
qed

text \<open>
  C2. On a corpus of at least \<open>seq_length + 1\<close> symbols, after any number \<open>n\<close> of
  calls the next call of \<^verbatim>\<open>next_batch\<close> returns: both lists have exactly
  \<open>seq_length\<close> entries and lie inside the corpus; entry \<open>i\<close> of the inputs is the
  index of the corpus symbol at \<open>cursor + i\<close> and entry \<open>i\<close> of the targets the index
  of the symbol right after it, so the targets are the inputs shifted by one; the
  cursor goes back to \<open>0\<close> when the window after the next one and one more symbol
  would not lie strictly inside the corpus, and otherwise advances by \<open>seq_length\<close>,
  so that the next window is again a full one.
\<close>

theorem next_batch_full_window:
  assumes "set chars = set txt" and "sl + 1 \<le> length txt"
  shows "\<exists>r inputs targets r'.
           after_batches n (DataReader_init txt chars sl) = Inr r \<and>
           next_batch r = Inr ((inputs, targets), r') \<and>
           length inputs = sl \<and> length targets = sl \<and>
           pointer r + sl + 1 \<le> length txt \<and>
           (\<forall>i<sl. char_to_ix r (txt ! (pointer r + i)) = Some (inputs ! i) \<and>
                    char_to_ix r (txt ! (pointer r + i + 1)) = Some (targets ! i)) \<and>
           (\<forall>i. i + 1 < sl \<longrightarrow> targets ! i = inputs ! (i + 1)) \<and>
           pointer r' = (if length txt \<le> pointer r + sl + sl + 1 then 0 else pointer r + sl) \<and>
           pointer r' + sl + 1 \<le> length txt"
proof -
  from after_batches_inv [OF assms init_inv, of n] obtain r
    where r: "after_batches n (DataReader_init txt chars sl) = Inr r" and inv: "reader_inv txt chars sl r"
    by blast
  let ?ix = "\<lambda>k. the (char_to_ix r k)"
  let ?ins = "map ?ix (slice txt (pointer r) (pointer r + sl))"
  let ?tgs = "map ?ix (slice txt (pointer r + 1) (pointer r + sl + 1))"
  from next_batch_inv [OF inv assms] obtain r'
    where nb: "next_batch r = Inr ((?ins, ?tgs), r')"
      and inv': "reader_inv txt chars sl r'"
      and p': "pointer r' = (if length txt \<le> pointer r + sl + sl + 1 then 0 else pointer r + sl)"
    by blast
  have fit: "pointer r + sl + 1 \<le> length txt"
    using inv assms(2) by (auto simp: reader_inv_def)
  have fit': "pointer r' + sl + 1 \<le> length txt"
    using inv' assms(2) by (auto simp: reader_inv_def)
  have dom: "dom (char_to_ix r) = set txt"
    using inv assms(1) by (simp add: reader_inv_def dom_char_to_ix)
  have some: "char_to_ix r (txt ! j) = Some (?ix (txt ! j))" if "j < length txt" for j
  proof -
    from that have "txt ! j \<in> dom (char_to_ix r)" by (simp add: dom)
    then show ?thesis by auto
  qed
  have li: "length ?ins = sl" and lt: "length ?tgs = sl"
    using fit by (simp_all add: length_slice)
  have ni: "?ins ! i = ?ix (txt ! (pointer r + i))" if "i < sl" for i
    using that fit by (simp add: slice_def)
  have nt: "?tgs ! i = ?ix (txt ! (pointer r + i + 1))" if "i < sl" for i
    using that fit by (simp add: slice_def)
  have el: "\<forall>i<sl. char_to_ix r (txt ! (pointer r + i)) = Some (?ins ! i) \<and>
                    char_to_ix r (txt ! (pointer r + i + 1)) = Some (?tgs ! i)"
  proof (intro allI impI conjI)
    fix i assume i: "i < sl"
    show "char_to_ix r (txt ! (pointer r + i)) = Some (?ins ! i)"
      unfolding ni [OF i] using fit i by (intro some) simp
    show "char_to_ix r (txt ! (pointer r + i + 1)) = Some (?tgs ! i)"
      unfolding nt [OF i] using fit i by (intro some) simp
  qed
  have sh: "\<forall>i. i + 1 < sl \<longrightarrow> ?tgs ! i = ?ins ! (i + 1)"
  proof (intro allI impI)
    fix i assume i: "i + 1 < sl"
    then have "i < sl" by simp
    from nt [OF this] ni [OF i] show "?tgs ! i = ?ins ! (i + 1)" by (simp add: add.assoc)
  qed
  show ?thesis
    apply (rule exI [of _ r], rule exI [of _ ?ins], rule exI [of _ ?tgs], rule exI [of _ r'])
    using r nb li lt fit el sh p' fit' by (intro conjI) assumption+
qed

theorem next_batch_full_window_witness:
  "set ''bac'' = set ''abcabca'' \<and> (2::nat) + 1 \<le> length ''abcabca'' \<and>
   (\<exists>r inputs targets r'.
      after_batches 1 (DataReader_init ''abcabca'' ''bac'' 2) = Inr r \<and>
      next_batch r = Inr ((inputs, targets), r') \<and>
      length inputs = 2 \<and> length targets = 2 \<and>
      pointer r + 2 + 1 \<le> length ''abcabca'' \<and>
      (\<forall>i<2. char_to_ix r (''abcabca'' ! (pointer r + i)) = Some (inputs ! i) \<and>
              char_to_ix r (''abcabca'' ! (pointer r + i + 1)) = Some (targets ! i)) \<and>
      (\<forall>i. i + 1 < 2 \<longrightarrow> targets ! i = inputs ! (i + 1)) \<and>
      pointer r' = (if length ''abcabca'' \<le> pointer r + 2 + 2 + 1 then 0 else pointer r + 2) \<and>
      pointer r' + 2 + 1 \<le> length ''abcabca'')"
proof -
  have h1: "set ''bac'' = set ''abcabca''" by auto
  have h2: "(2::nat) + 1 \<le> length ''abcabca''" by simp
  from next_batch_full_window [OF h1 h2, of 1] h1 h2 show ?thesis by blast
qed

section \<open>Softmax\<close>

lemma concat_mat_map: "concat (mat_map f m) = map f (concat m)"
  by (simp add: mat_map_def map_concat)

lemma sum_list_div: "sum_list (map (\<lambda>v. v / s) xs) = sum_list xs / (s::real)"
  by (induction xs) (simp_all add: add_divide_distrib)

lemma sum_list_exp_pos: "xs \<noteq> [] \<Longrightarrow> 0 < sum_list (map (\<lambda>v. exp (f v)) xs)"
  for f :: "real \<Rightarrow> real"
proof (induction xs)
  case Nil
  then show ?case by simp
next
  case (Cons a xs)
  have "0 \<le> sum_list (map (\<lambda>v. exp (f v)) xs)"
    by (rule sum_list_nonneg) auto
  moreover have "0 < exp (f a)" by simp
  ultimately have "0 < exp (f a) + sum_list (map (\<lambda>v. exp (f v)) xs)"
    by linarith
  then show ?case by simp
qed

lemma normalised_sum:
  assumes "concat x \<noteq> []"
  shows "np_sum (mat_map (\<lambda>e. e / np_sum (mat_map (\<lambda>v. exp (f v)) x))
                   (mat_map (\<lambda>v. exp (f v)) x)) = 1"
proof -
  have "0 < sum_list (map (\<lambda>v. exp (f v)) (concat x))"
    using assms by (rule sum_list_exp_pos)
  then show ?thesis
    unfolding np_sum_def concat_mat_map sum_list_div by simp
qed

lemma Max_shift:
  assumes "xs \<noteq> []"
  shows "Max (set (map (\<lambda>v. v + c) xs)) = Max (set xs) + (c::real)"
proof -
  have "Max ((\<lambda>v. v + c) ` set xs) = Max (set xs) + c"
    using assms by (intro mono_Max_commute [symmetric] monoI) auto
  then show ?thesis by simp
qed

text \<open>
  Every exponent that \<^verbatim>\<open>softmax\<close> hands to \<^verbatim>\<open>np.exp\<close> is at most \<open>0\<close>, so
  every exponential it computes lies in \<open>(0, 1]\<close>.
\<close>

lemma softmax_exponent_nonpos:
  fixes x :: mat
  assumes "v \<in> set (concat x)"
  shows "v - Max (set (concat x)) \<le> 0" and "exp (v - Max (set (concat x))) \<le> 1"
proof -
  have "v \<le> Max (set (concat x))"
    using assms by (intro Max_ge) simp_all
  then show le: "v - Max (set (concat x)) \<le> 0" by linarith
  show "exp (v - Max (set (concat x))) \<le> 1"
    using le by (simp only: exp_le_one_iff)
qed

text \<open>
  C6. On an array \<open>x\<close> with at least one entry (the logits of a network are
  \<open>vocab_size \<ge> 1\<close> numbers), \<^verbatim>\<open>softmax\<close> returns an array whose entries add up
  to \<open>1\<close>, and it returns the same array when a constant \<open>c\<close> is added to every
  entry of \<open>x\<close>.
\<close>

theorem softmax_sum_and_shift:
  assumes "concat x \<noteq> []"
  shows "\<exists>y. softmax x = Inr y \<and> np_sum y = 1 \<and> softmax (mat_map (\<lambda>v. v + c) x) = Inr y"
proof -
  let ?m = "Max (set (concat x))"
  let ?p = "mat_map (\<lambda>v. exp (v - ?m)) x"
  let ?y = "mat_map (\<lambda>v. v / np_sum ?p) ?p"
  have sm: "softmax x = Inr ?y"
    using assms by (simp add: softmax_def np_max_def Let_def)
  have one: "np_sum ?y = 1"
    using assms by (rule normalised_sum)
  have ne: "concat (mat_map (\<lambda>v. v + c) x) \<noteq> []"
    using assms by (simp add: concat_mat_map)
  have mx: "Max (set (concat (mat_map (\<lambda>v. v + c) x))) = ?m + c"
    unfolding concat_mat_map using assms by (rule Max_shift)
  have p: "mat_map (\<lambda>v. exp (v - (?m + c))) (mat_map (\<lambda>v. v + c) x) = ?p"
    by (simp add: mat_map_def comp_def)
  have "softmax (mat_map (\<lambda>v. v + c) x) = Inr ?y"
    using ne by (simp add: softmax_def np_max_def Let_def mx p del: set_concat)
  with sm one show ?thesis by blast
qed

theorem softmax_sum_and_shift_witness:
  "concat logits2 \<noteq> [] \<and> softmax logits2 = Inr [[1/2], [1/2]] \<and> np_sum [[1/2], [1/2]] = 1 \<and>
   softmax (mat_map (\<lambda>v. v + 3) logits2) = Inr [[1/2], [1/2]]"
proof -
  have h: "concat logits2 \<noteq> []" by (simp add: logits2_def)
  have s: "softmax logits2 = Inr [[1/2], [1/2]]"
    by (simp add: logits2_def softmax_def np_max_def Let_def mat_map_def np_sum_def)
  from softmax_sum_and_shift [OF h, of 3] s h show ?thesis by auto
qed

section \<open>The Adagrad update\<close>

lemma same_shape_refl [simp]: "same_shape A A"
  by (simp add: same_shape_def)

lemma same_shape_sym: "same_shape A B \<Longrightarrow> same_shape B A"
  by (simp add: same_shape_def)

lemma same_shape_trans: "same_shape A B \<Longrightarrow> same_shape B C \<Longrightarrow> same_shape A C"
  by (simp add: same_shape_def)

lemma same_shape_length: "same_shape A B \<Longrightarrow> length A = length B"
  unfolding same_shape_def by (metis length_map)

lemma same_shape_row: "same_shape A B \<Longrightarrow> i < length A \<Longrightarrow> length (A ! i) = length (B ! i)"
  unfolding same_shape_def by (metis length_map nth_map)

lemma same_shape_zeros_like [simp]: "same_shape (zeros_like A) A"
  by (simp add: same_shape_def zeros_like_def comp_def)

lemma map2_left:
  assumes "length xs = length ys" and "\<And>i. i < length xs \<Longrightarrow> f (xs ! i) (ys ! i) = xs ! i"
  shows "map2 f xs ys = xs"
  using assms by (intro nth_equalityI) simp_all

lemma mat_map2_left:
  assumes "same_shape A B"
    and "\<And>i j. i < length A \<Longrightarrow> j < length (A ! i) \<Longrightarrow> f (A ! i ! j) (B ! i ! j) = A ! i ! j"
  shows "map2 (map2 f) A B = A"
proof (rule map2_left)
  show "length A = length B" using assms(1) by (rule same_shape_length)
  fix i assume i: "i < length A"
  show "map2 f (A ! i) (B ! i) = A ! i"
    using same_shape_row [OF assms(1) i] assms(2) [OF i] by (intro map2_left) simp_all
qed

lemma same_shape_map2:
  assumes "same_shape A B"
  shows "same_shape (map2 (map2 f) A B) A"
  unfolding same_shape_def
proof (rule nth_equalityI)
  show "length (map length (map2 (map2 f) A B)) = length (map length A)"
    using same_shape_length [OF assms] by simp
  fix i assume "i < length (map length (map2 (map2 f) A B))"
  then have i: "i < length A" by simp
  then have "i < length B" using same_shape_length [OF assms] by simp
  with i show "map length (map2 (map2 f) A B) ! i = map length A ! i"
    using same_shape_row [OF assms i] by simp
qed

lemma same_shape_mat_map [simp]: "same_shape (mat_map f A) A"
  by (simp add: same_shape_def mat_map_def comp_def)

lemma nth_map2_mat:
  assumes "same_shape A B" "i < length A" "j < length (A ! i)"
  shows "map2 (map2 f) A B ! i ! j = f (A ! i ! j) (B ! i ! j)"
  using assms same_shape_length [OF assms(1)] same_shape_row [OF assms(1,2)] by simp

lemma mat_leI:
  assumes "same_shape A B" "\<And>i j. i < length A \<Longrightarrow> j < length (A ! i) \<Longrightarrow> A ! i ! j \<le> B ! i ! j"
  shows "mat_le A B"
  unfolding mat_le_def list_all2_conv_all_nth
  using assms same_shape_length [OF assms(1)] same_shape_row [OF assms(1)] by auto

lemma mat_le_same_shape: "mat_le A B \<Longrightarrow> same_shape A B"
  unfolding mat_le_def same_shape_def list_all2_conv_all_nth
  by (auto intro: nth_equalityI)

lemma mat_le_trans:
  assumes "mat_le A B" and "mat_le B C"
  shows "mat_le A C"
proof -
  have row: "list_all2 (\<le>) a c" if "list_all2 (\<le>) a b" "list_all2 (\<le>) b c"
    for a b c :: "real list"
    using that by (rule list_all2_trans [rotated]) simp
  from assms show ?thesis
    unfolding mat_le_def by (rule list_all2_trans [rotated]) (rule row)
qed

lemma mat_le_refl [simp]: "mat_le A A"
  by (simp add: mat_le_def list_all2_refl)


lemma adagrad_mem_le:
  assumes "same_shape d mem"
  shows "mat_le mem (snd (adagrad lr p d mem))"
proof (rule mat_leI)
  have dd: "same_shape (mat_mul d d) d"
    unfolding mat_mul_def by (rule same_shape_map2) simp
  have sh: "same_shape mem (mat_mul d d)"
    using dd assms by (meson same_shape_sym same_shape_trans)
  show "same_shape mem (snd (adagrad lr p d mem))"
    unfolding adagrad_def Let_def snd_conv mat_add_def
    by (rule same_shape_sym, rule same_shape_map2, rule sh)
  fix i j assume i: "i < length mem" and j: "j < length (mem ! i)"
  have i': "i < length d" and j': "j < length (d ! i)"
    using i j same_shape_length [OF assms] same_shape_row [OF assms, of i] by simp_all
  have "mat_mul d d ! i ! j = d ! i ! j * d ! i ! j"
    unfolding mat_mul_def using i' j' by (intro nth_map2_mat) simp_all
  moreover have "mat_add mem (mat_mul d d) ! i ! j = mem ! i ! j + mat_mul d d ! i ! j"
    unfolding mat_add_def using sh i j by (rule nth_map2_mat)
  ultimately show "mem ! i ! j \<le> snd (adagrad lr p d mem) ! i ! j"
    by (simp add: adagrad_def Let_def)
qed

lemma adagrad_param_shape:
  assumes "same_shape d p" "same_shape mem p"
  shows "same_shape (fst (adagrad lr p d mem)) p"
proof -
  have dm: "same_shape d mem" using assms by (meson same_shape_sym same_shape_trans)
  have "same_shape (mat_mul d d) d"
    unfolding mat_mul_def by (rule same_shape_map2) simp
  then have "same_shape mem (mat_mul d d)"
    using dm by (meson same_shape_sym same_shape_trans)
  then have m': "same_shape (mat_add mem (mat_mul d d)) mem"
    unfolding mat_add_def by (rule same_shape_map2)
  let ?n = "mat_map (\<lambda>d. - lr * d) d"
  let ?s = "mat_map (\<lambda>m. sqrt (m + 1 / 10 ^ 8)) (mat_add mem (mat_mul d d))"
  have "same_shape ?n ?s"
    using m' dm by (meson same_shape_mat_map same_shape_sym same_shape_trans)
  then have "same_shape (mat_div ?n ?s) ?n"
    unfolding mat_div_def by (rule same_shape_map2)
  then have "same_shape p (mat_div ?n ?s)"
    using assms(1) by (meson same_shape_mat_map same_shape_sym same_shape_trans)
  then show ?thesis
    unfolding adagrad_def Let_def fst_conv mat_add_def by (rule same_shape_map2)
qed

lemma adagrad_zero:
  assumes "same_shape mem p"
  shows "adagrad lr p (zeros_like p) mem = (p, mem)"
proof -
  let ?z = "zeros_like p"
  have z: "?z ! i ! j = 0" if "i < length p" "j < length (p ! i)" for i j
    using that by (simp add: zeros_like_def)
  have zz: "same_shape (mat_mul ?z ?z) ?z"
    unfolding mat_mul_def by (rule same_shape_map2) simp
  have zz0: "mat_mul ?z ?z ! i ! j = 0" if "i < length p" "j < length (p ! i)" for i j
  proof -
    have "map2 (map2 (*)) ?z ?z ! i ! j = ?z ! i ! j * ?z ! i ! j"
      using that by (intro nth_map2_mat) (simp_all add: zeros_like_def)
    then show ?thesis by (simp add: mat_mul_def z [OF that])
  qed
  have sh: "same_shape mem (mat_mul ?z ?z)"
    using assms zz by (meson same_shape_zeros_like same_shape_sym same_shape_trans)
  have mem: "mat_add mem (mat_mul ?z ?z) = mem"
    unfolding mat_add_def
  proof (rule mat_map2_left [OF sh])
    fix i j assume "i < length mem" "j < length (mem ! i)"
    then have "i < length p" "j < length (p ! i)"
      using same_shape_length [OF assms] same_shape_row [OF assms, of i] by simp_all
    then show "mem ! i ! j + mat_mul ?z ?z ! i ! j = mem ! i ! j"
      by (simp add: zz0)
  qed
  let ?n = "mat_map (\<lambda>d. - lr * d) ?z"
  let ?s = "mat_map (\<lambda>m. sqrt (m + 1 / 10 ^ 8)) mem"
  have ns: "same_shape ?n ?s"
    using assms by (meson same_shape_mat_map same_shape_zeros_like same_shape_sym same_shape_trans)
  have pn: "same_shape p ?n"
    by (meson same_shape_mat_map same_shape_zeros_like same_shape_sym same_shape_trans)
  have pq: "same_shape p (mat_div ?n ?s)"
    unfolding mat_div_def using pn same_shape_map2 [OF ns]
    by (meson same_shape_sym same_shape_trans)
  have par: "mat_add p (mat_div ?n ?s) = p"
    unfolding mat_add_def
  proof (rule mat_map2_left [OF pq])
    fix i j assume i: "i < length p" and j: "j < length (p ! i)"
    have "i < length ?n" "j < length (?n ! i)"
      using i j by (simp_all add: mat_map_def zeros_like_def)
    then have "map2 (map2 (/)) ?n ?s ! i ! j = ?n ! i ! j / ?s ! i ! j"
      by (intro nth_map2_mat [OF ns])
    moreover have "?n ! i ! j = 0"
      using i j by (simp add: mat_map_def zeros_like_def)
    ultimately show "p ! i ! j + mat_div ?n ?s ! i ! j = p ! i ! j"
      by (simp add: mat_div_def)
  qed
  show ?thesis
    unfolding adagrad_def Let_def mem par by (rule refl)
qed

lemma update_model_fields:
  "pU (update_model rnn dU dW dV db dc) = fst (adagrad (learning_rate rnn) (pU rnn) dU (mU rnn))"
  "pW (update_model rnn dU dW dV db dc) = fst (adagrad (learning_rate rnn) (pW rnn) dW (mW rnn))"
  "pV (update_model rnn dU dW dV db dc) = fst (adagrad (learning_rate rnn) (pV rnn) dV (mV rnn))"
  "pb (update_model rnn dU dW dV db dc) = fst (adagrad (learning_rate rnn) (pb rnn) db (mb rnn))"
  "pc (update_model rnn dU dW dV db dc) = fst (adagrad (learning_rate rnn) (pc rnn) dc (mc rnn))"
  "mU (update_model rnn dU dW dV db dc) = snd (adagrad (learning_rate rnn) (pU rnn) dU (mU rnn))"
  "mW (update_model rnn dU dW dV db dc) = snd (adagrad (learning_rate rnn) (pW rnn) dW (mW rnn))"
  "mV (update_model rnn dU dW dV db dc) = snd (adagrad (learning_rate rnn) (pV rnn) dV (mV rnn))"
  "mb (update_model rnn dU dW dV db dc) = snd (adagrad (learning_rate rnn) (pb rnn) db (mb rnn))"
  "mc (update_model rnn dU dW dV db dc) = snd (adagrad (learning_rate rnn) (pc rnn) dc (mc rnn))"
  by (simp_all add: update_model_def Let_def split_beta)

text \<open>
  C7. Let the memories of the object have the shapes of its parameters and no
  negative entry (they are sums of squares). A call of \<^verbatim>\<open>update_model\<close> whose five
  gradients are zero arrays of the parameters' shapes leaves \<open>U\<close>, \<open>W\<close>, \<open>V\<close>, \<open>b\<close>
  and \<open>c\<close> as they were.
\<close>

theorem update_zero_gradient:
  assumes "mems_shaped rnn" and "mems_nonneg rnn"
  shows "pU (update_model rnn (zeros_like (pU rnn)) (zeros_like (pW rnn)) (zeros_like (pV rnn))
               (zeros_like (pb rnn)) (zeros_like (pc rnn))) = pU rnn \<and>
         pW (update_model rnn (zeros_like (pU rnn)) (zeros_like (pW rnn)) (zeros_like (pV rnn))
               (zeros_like (pb rnn)) (zeros_like (pc rnn))) = pW rnn \<and>
         pV (update_model rnn (zeros_like (pU rnn)) (zeros_like (pW rnn)) (zeros_like (pV rnn))
               (zeros_like (pb rnn)) (zeros_like (pc rnn))) = pV rnn \<and>
         pb (update_model rnn (zeros_like (pU rnn)) (zeros_like (pW rnn)) (zeros_like (pV rnn))
               (zeros_like (pb rnn)) (zeros_like (pc rnn))) = pb rnn \<and>
         pc (update_model rnn (zeros_like (pU rnn)) (zeros_like (pW rnn)) (zeros_like (pV rnn))
               (zeros_like (pb rnn)) (zeros_like (pc rnn))) = pc rnn"
  using assms(1) by (simp add: update_model_fields adagrad_zero mems_shaped_def)

theorem update_zero_gradient_witness:
  "mems_shaped tiny_rnn \<and> mems_nonneg tiny_rnn \<and>
   pU (update_model tiny_rnn [[0, 0]] [[0]] [[0], [0]] [[0]] [[0], [0]]) = [[0, 0]] \<and>
   pc (update_model tiny_rnn [[0, 0]] [[0]] [[0], [0]] [[0]] [[0], [0]]) = [[0], [0]]"
proof -
  have h1: "mems_shaped tiny_rnn"
    by (simp add: mems_shaped_def tiny_rnn_def same_shape_def)
  have h2: "mems_nonneg tiny_rnn"
    by (simp add: mems_nonneg_def tiny_rnn_def mat_all_def)
  from update_zero_gradient [OF h1 h2] h1 h2 show ?thesis
    by (simp add: tiny_rnn_def zeros_like_def)
qed

lemma mems_shaped_update:
  assumes "mems_shaped rnn" "op_shaped rnn (Update_model dU dW dV db dc)"
  shows "mems_shaped (update_model rnn dU dW dV db dc)"
    and "same_shape (pU (update_model rnn dU dW dV db dc)) (pU rnn)"
    and "same_shape (pW (update_model rnn dU dW dV db dc)) (pW rnn)"
    and "same_shape (pV (update_model rnn dU dW dV db dc)) (pV rnn)"
    and "same_shape (pb (update_model rnn dU dW dV db dc)) (pb rnn)"
    and "same_shape (pc (update_model rnn dU dW dV db dc)) (pc rnn)"
proof -
  have m: "same_shape (snd (adagrad lr p d mem)) p" if "same_shape d p" "same_shape mem p" for lr p d mem
  proof -
    have "same_shape d mem" using that by (meson same_shape_sym same_shape_trans)
    from mat_le_same_shape [OF adagrad_mem_le [OF this]] that(2)
    show ?thesis by (meson same_shape_sym same_shape_trans)
  qed
  have q: "same_shape (snd (adagrad lr p d mem)) (fst (adagrad lr p d mem))"
    if "same_shape d p" "same_shape mem p" for lr p d mem
    using m [OF that] adagrad_param_shape [OF that] by (meson same_shape_sym same_shape_trans)
  show "mems_shaped (update_model rnn dU dW dV db dc)"
    using assms by (simp add: mems_shaped_def update_model_fields q)
  show "same_shape (pU (update_model rnn dU dW dV db dc)) (pU rnn)"
    "same_shape (pW (update_model rnn dU dW dV db dc)) (pW rnn)"
    "same_shape (pV (update_model rnn dU dW dV db dc)) (pV rnn)"
    "same_shape (pb (update_model rnn dU dW dV db dc)) (pb rnn)"
    "same_shape (pc (update_model rnn dU dW dV db dc)) (pc rnn)"
    using assms by (simp_all add: mems_shaped_def update_model_fields adagrad_param_shape)
qed

lemma after_op_shapes:
  assumes "mems_shaped rnn" "op_shaped rnn a"
  shows "mems_shaped (after_op rnn a)"
  using assms by (cases a) (simp_all add: mems_shaped_update(1))

lemma after_op_mem_le:
  assumes "mems_shaped rnn" "op_shaped rnn a"
  shows "mat_le (mU rnn) (mU (after_op rnn a))" "mat_le (mW rnn) (mW (after_op rnn a))"
    "mat_le (mV rnn) (mV (after_op rnn a))" "mat_le (mb rnn) (mb (after_op rnn a))"
    "mat_le (mc rnn) (mc (after_op rnn a))"
proof -
  have le: "mat_le mem (snd (adagrad lr p d mem))" if "same_shape d p" "same_shape mem p"
    for lr p d mem
    using that by (intro adagrad_mem_le) (meson same_shape_sym same_shape_trans)
  show "mat_le (mU rnn) (mU (after_op rnn a))" "mat_le (mW rnn) (mW (after_op rnn a))"
    "mat_le (mV rnn) (mV (after_op rnn a))" "mat_le (mb rnn) (mb (after_op rnn a))"
    "mat_le (mc rnn) (mc (after_op rnn a))"
    using assms by (cases a; simp add: update_model_fields mems_shaped_def le)+
qed

text \<open>
  C8. Let the memories have the shapes of the parameters, and let \<open>ops\<close> be any
  sequence of calls of the methods of the class in which the gradients of every
  call of \<^verbatim>\<open>update_model\<close> have the shapes of the parameters. Every entry of
  \<open>mU\<close>, \<open>mW\<close>, \<open>mV\<close>, \<open>mb\<close> and \<open>mc\<close> after the sequence is at least its value
  before: a call of \<^verbatim>\<open>update_model\<close> adds a square to it, and no other method
  writes it.
\<close>

theorem accumulators_never_decrease:
  assumes "mems_shaped rnn" and "ops_shaped rnn ops"
  shows "mat_le (mU rnn) (mU (foldl after_op rnn ops)) \<and>
         mat_le (mW rnn) (mW (foldl after_op rnn ops)) \<and>
         mat_le (mV rnn) (mV (foldl after_op rnn ops)) \<and>
         mat_le (mb rnn) (mb (foldl after_op rnn ops)) \<and>
         mat_le (mc rnn) (mc (foldl after_op rnn ops))"
  using assms
proof (induction ops arbitrary: rnn)
  case Nil
  then show ?case by simp
next
  case (Cons a ops)
  then have a: "op_shaped rnn a" and rest: "ops_shaped (after_op rnn a) ops" by simp_all
  note sh = after_op_shapes [OF Cons.prems(1) a]
  note step = after_op_mem_le [OF Cons.prems(1) a]
  from Cons.IH [OF sh rest] step show ?case
    by (auto intro: mat_le_trans)
qed

theorem accumulators_never_decrease_witness:
  "mems_shaped tiny_rnn \<and>
   ops_shaped tiny_rnn [Forward, Update_model [[1, 2]] [[3]] [[1], [1]] [[2]] [[1], [2]], Sample] \<and>
   mat_le (mU tiny_rnn)
     (mU (foldl after_op tiny_rnn
            [Forward, Update_model [[1, 2]] [[3]] [[1], [1]] [[2]] [[1], [2]], Sample])) \<and>
   mat_le (mc tiny_rnn)
     (mc (foldl after_op tiny_rnn
            [Forward, Update_model [[1, 2]] [[3]] [[1], [1]] [[2]] [[1], [2]], Sample])) \<and>
   mU (foldl after_op tiny_rnn
         [Forward, Update_model [[1, 2]] [[3]] [[1], [1]] [[2]] [[1], [2]], Sample]) = [[2, 4]]"
proof -
  have h1: "mems_shaped tiny_rnn"
    by (simp add: mems_shaped_def tiny_rnn_def same_shape_def)
  have h2: "ops_shaped tiny_rnn
              [Forward, Update_model [[1, 2]] [[3]] [[1], [1]] [[2]] [[1], [2]], Sample]"
    by (simp add: tiny_rnn_def same_shape_def)
  have v: "mU (foldl after_op tiny_rnn
         [Forward, Update_model [[1, 2]] [[3]] [[1], [1]] [[2]] [[1], [2]], Sample]) = [[2, 4]]"
    by (simp add: update_model_fields adagrad_def Let_def tiny_rnn_def mat_add_def mat_mul_def)
  from accumulators_never_decrease [OF h1 h2] h1 h2 v show ?thesis by blast
qed

section \<open>The loss\<close>

text \<open>
  C5. Whatever the dict of probabilities and the list of targets, \<^verbatim>\<open>loss\<close>
  raises \<^verbatim>\<open>TypeError\<close>: it returns no number at all.
\<close>

theorem loss_raises_TypeError: "loss ps targets = Inl TypeError"
  by (simp add: loss_def)

section \<open>Sampling\<close>

text \<open>
  A round of \<^verbatim>\<open>sample\<close> divides \<^verbatim>\<open>np.exp(y)\<close> by its sum, with no maximum
  subtracted from \<open>y\<close> first. When the logits are in range the quotients are the
  probabilities \<open>exp y\<^sub>i / \<Sum>\<^sub>j exp y\<^sub>j\<close>, up to the entries that underflow to zero;
  when an exponential exceeds \<open>max_double\<close> an entry of \<open>p\<close> is \<^verbatim>\<open>nan\<close> and the
  round raises \<^verbatim>\<open>ValueError\<close>.
\<close>

lemma max_double_less: "max_double < 2 ^ 1024"
proof -
  have "max_double < 2 * 2 ^ 1023"
    unfolding max_double_def by (intro mult_strict_right_mono) simp_all
  then show ?thesis by simp
qed

lemma exp_le_sum_list:
  fixes ys :: "real list"
  assumes "v \<in> set ys"
  shows "exp v \<le> sum_list (map exp ys)"
  using assms
proof (induction ys)
  case Nil
  then show ?case by simp
next
  case (Cons a ys)
  have S: "0 \<le> sum_list (map exp ys)" by (rule sum_list_nonneg) auto
  have a: "0 \<le> exp a" by simp
  show ?case
  proof (cases "v = a")
    case True
    with S show ?thesis by simp
  next
    case False
    with Cons have "exp v \<le> sum_list (map exp ys)" by simp
    from add_increasing [OF a this] show ?thesis by simp
  qed
qed

lemma np_exp_cases:
  "np_exp v = PosInf \<and> max_double < exp v \<or>
   np_exp v = Fin (fin_val (np_exp v)) \<and> exp v \<le> max_double \<and> 0 \<le> fin_val (np_exp v) \<and>
     fin_val (np_exp v) \<le> exp v \<and> (1 / 2 ^ 1075 \<le> exp v \<longrightarrow> fin_val (np_exp v) = exp v)"
  by (simp add: np_exp_def)

lemma np_exp_not_NaN [simp]: "np_exp v \<noteq> NaN"
  by (simp add: np_exp_def)

lemma sum_list_mono_map:
  fixes f g :: "'a \<Rightarrow> real"
  assumes "\<And>x. x \<in> set xs \<Longrightarrow> f x \<le> g x"
  shows "sum_list (map f xs) \<le> sum_list (map g xs)"
  using assms by (induction xs) (auto intro: add_mono)

lemma sum_list_pos_ex:
  fixes f :: "'a \<Rightarrow> real"
  assumes "\<And>x. x \<in> set xs \<Longrightarrow> 0 \<le> f x" and "x \<in> set xs" and "0 < f x"
  shows "0 < sum_list (map f xs)"
  using assms
proof (induction xs)
  case Nil
  then show ?case by simp
next
  case (Cons a xs)
  have nn: "0 \<le> sum_list (map f xs)"
    using Cons.prems(1) by (intro sum_list_nonneg) auto
  have a: "0 \<le> f a" using Cons.prems(1) by simp
  show ?case
  proof (cases "x = a")
    case True
    with Cons.prems(3) nn show ?thesis by simp
  next
    case False
    with Cons.prems have "x \<in> set xs" by simp
    with Cons.IH Cons.prems have "0 < sum_list (map f xs)" by simp
    with a show ?thesis by simp
  qed
qed

lemma np_softmax_in_range:
  assumes "logits_in_range ys"
  shows "\<exists>qs. map (\<lambda>e. np_div e (np_fsum (map np_exp ys))) (map np_exp ys) = map Fin qs \<and>
           length qs = length ys \<and> (\<forall>q\<in>set qs. 0 \<le> q) \<and> sum_list qs = 1"
proof -
  let ?f = "\<lambda>v. fin_val (np_exp v)"
  let ?s = "sum_list (map ?f ys)"
  from assms have sum: "sum_list (map exp ys) \<le> max_double"
    and ex: "\<exists>v\<in>set ys. 1 / 2 ^ 1075 \<le> exp v"
    by (simp_all add: logits_in_range_def list_ex_iff)
  have fin: "np_exp v = Fin (?f v)" and nn: "0 \<le> ?f v" and le: "?f v \<le> exp v"
    if "v \<in> set ys" for v
  proof -
    from exp_le_sum_list [OF that] sum have "\<not> max_double < exp v" by simp
    with np_exp_cases [of v] show "np_exp v = Fin (?f v)" "0 \<le> ?f v" "?f v \<le> exp v"
      by auto
  qed
  have "?s \<le> sum_list (map exp ys)"
    by (rule sum_list_mono_map) (rule le)
  with sum have s_le: "\<not> max_double < ?s" by simp
  from ex obtain w where w: "w \<in> set ys" "1 / 2 ^ 1075 \<le> exp w" by blast
  with np_exp_cases [of w] fin [OF w(1)] have "?f w = exp w" by auto
  then have "0 < ?f w" by simp
  with nn w(1) have s_pos: "0 < ?s" by (intro sum_list_pos_ex [where x = w]) simp_all
  have mapf: "map fin_val (map np_exp ys) = map ?f ys" by simp
  have "e \<noteq> NaN \<and> e \<noteq> PosInf" if "e \<in> set (map np_exp ys)" for e
  proof -
    from that obtain v where "v \<in> set ys" "e = np_exp v" by auto
    with fin [of v] have "e = Fin (?f v)" by simp
    then show ?thesis by simp
  qed
  then have no: "\<not> list_ex (\<lambda>v. v = NaN) (map np_exp ys)"
    "\<not> list_ex (\<lambda>v. v = PosInf) (map np_exp ys)"
    unfolding list_ex_iff by blast+
  have fs: "np_fsum (map np_exp ys) = Fin ?s"
    unfolding np_fsum_def mapf using no s_le by simp
  have dv: "np_div (np_exp v) (Fin ?s) = Fin (?f v / ?s)" if v: "v \<in> set ys" for v
  proof -
    obtain a where a: "np_exp v = Fin a" using fin [OF v] by blast
    with s_pos show ?thesis by simp
  qed
  have "map (\<lambda>e. np_div e (np_fsum (map np_exp ys))) (map np_exp ys) = map Fin (map (\<lambda>v. ?f v / ?s) ys)"
    unfolding fs by (simp add: dv)
  moreover have "\<forall>q\<in>set (map (\<lambda>v. ?f v / ?s) ys). 0 \<le> q"
    using nn s_pos by auto
  moreover have "sum_list (map (\<lambda>v. ?f v / ?s) ys) = 1"
    using s_pos sum_list_div [of ?s "map ?f ys"] by (simp add: comp_def)
  ultimately show ?thesis by (intro exI [of _ "map (\<lambda>v. ?f v / ?s) ys"]) simp
qed

lemma np_softmax_overflow:
  assumes "v \<in> set ys" "max_double < exp v"
  shows "\<not> list_all is_fin (map (\<lambda>e. np_div e (np_fsum (map np_exp ys))) (map np_exp ys))"
proof -
  have inf: "np_exp v = PosInf" using assms(2) by (simp add: np_exp_def)
  have "\<not> list_ex (\<lambda>v. v = NaN) (map np_exp ys)"
    unfolding list_ex_iff by (metis imageE list.set_map np_exp_not_NaN)
  moreover have "list_ex (\<lambda>v. v = PosInf) (map np_exp ys)"
    unfolding list_ex_iff using assms(1) inf by (metis image_eqI list.set_map)
  ultimately have "np_fsum (map np_exp ys) = PosInf" by (simp add: np_fsum_def)
  then have "np_div (np_exp v) (np_fsum (map np_exp ys)) = NaN" by (simp add: inf)
  then have "\<not> is_fin (np_div (np_exp v) (np_fsum (map np_exp ys)))" by simp
  with assms(1) show ?thesis by (auto simp: list_all_iff)
qed

lemma concat_map_map: "concat (map (map f) m) = map f (concat m)"
  by (simp add: map_concat)

lemma np_random_choice_Fin: "np_random_choice k (map Fin qs) u = random_choice k qs u"
  by (simp add: np_random_choice_def list_all_iff comp_def)

lemma sample_step_overflow:
  assumes "list_ex (\<lambda>e. max_double < e) (concat (sample_exp rnn h x))"
  shows "sample_step rnn us (h, x, ixes) t = Inl ValueError"
proof -
  let ?h = "mat_map tanh (mat_add (mat_add (dot (pU rnn) x) (dot (pW rnn) h)) (pb rnn))"
  let ?y = "mat_add (dot (pV rnn) ?h) (pc rnn)"
  let ?p = "map (map (\<lambda>e. np_div e (np_fsum (concat (map (map np_exp) ?y))))) (map (map np_exp) ?y)"
  from assms obtain v where v: "v \<in> set (concat ?y)" "max_double < exp v"
    by (auto simp: sample_exp_def Let_def concat_mat_map list_ex_iff simp del: set_concat)
  have "\<not> list_all is_fin (concat ?p)"
    unfolding concat_map_map using v by (rule np_softmax_overflow)
  then have "np_random_choice (rnn_vocab_size rnn) (concat ?p) (us t) = Inl ValueError"
    by (simp add: np_random_choice_def)
  then show ?thesis
    unfolding sample_step_def Let_def prod.case by simp
qed

lemma exp_2000: "2 ^ 1024 < exp (2000::real)"
proof -
  have "(2::real) \<le> exp 1" using exp_ge_add_one_self [of "1::real"] by simp
  then have "(2::real) ^ 2000 \<le> exp 1 ^ 2000" by (intro power_mono) simp_all
  also have "exp (1::real) ^ 2000 = exp 2000"
    using exp_of_nat_mult [of 2000 "1::real"] by simp
  finally have "(2::real) ^ 2000 \<le> exp 2000" .
  moreover have "(2::real) ^ 1024 < 2 ^ 2000" by (intro power_strict_increasing) simp_all
  ultimately show ?thesis by linarith
qed

lemma large_bias_overflow:
  "list_ex (\<lambda>e. max_double < e) (concat (sample_exp large_bias_rnn [[0]] [[1]]))"
proof -
  have "sample_exp large_bias_rnn [[0]] [[1]] = [[exp 2000]]"
    by (simp add: sample_exp_def large_bias_rnn_def Let_def mat_map_def mat_add_def dot_def
        transp_def)
  moreover have "max_double < exp (2000::real)"
    using max_double_less exp_2000 by linarith
  ultimately show ?thesis by simp
qed

lemma sample_large_bias_raises:
  "sample large_bias_rnn [[0]] 0 (Suc n) us = Inl ValueError"
proof -
  have x: "set_row (zeros (rnn_vocab_size large_bias_rnn) 1) 0 1 = Inr [[1]]"
    by (simp add: set_row_def zeros_def large_bias_rnn_def)
  have "sample_step large_bias_rnn us ([[0]], [[1]], []) 0 = Inl ValueError"
    using large_bias_overflow by (rule sample_step_overflow)
  moreover have "[0..<Suc n] = 0 # [Suc 0..<Suc n]"
    by (rule upt_conv_Cons) simp
  ultimately show ?thesis
    unfolding sample_def x by (simp del: upt_Suc)
qed

text \<open>
  C9. In the network \<open>large_bias_rnn\<close> the logit of a round of \<^verbatim>\<open>sample\<close> is
  \<open>2000\<close>, and the entry \<open>exp 2000\<close> of \<^verbatim>\<open>np.exp(y)\<close> is larger than \<open>2 ^ 1024\<close>,
  hence larger than every finite double.
\<close>

theorem sample_exp_exceeds_double:
  "sample_exp large_bias_rnn [[0]] [[1]] = [[exp 2000]] \<and> 2 ^ 1024 < exp (2000::real)"
proof -
  have "sample_exp large_bias_rnn [[0]] [[1]] = [[exp 2000]]"
    by (simp add: sample_exp_def large_bias_rnn_def Let_def mat_map_def mat_add_def dot_def
        transp_def)
  with exp_2000 show ?thesis by simp
qed

section \<open>The constructor\<close>

lemma mat_all_uniform:
  assumes "\<And>k. P (low + (high - low) * us k)"
  shows "mat_all P (uniform low high r c us off)"
  using assms by (simp add: mat_all_def uniform_def list_all_iff)

lemma uniform_bound:
  assumes "0 \<le> a" "0 \<le> u" "u < 1"
  shows "\<bar>- a + (a - - a) * u\<bar> \<le> (a::real)"
proof -
  have "a * u \<le> a * 1" using assms by (intro mult_left_mono) simp_all
  moreover have "0 \<le> a * u" using assms by simp
  ultimately show ?thesis by (simp add: algebra_simps abs_le_iff)
qed

lemma mat_all_zeros: "P 0 \<Longrightarrow> mat_all P (zeros r c)"
  by (simp add: mat_all_def zeros_def list_all_iff)

lemma after_op_frame:
  assumes "\<not> is_update a"
  shows "after_op rnn a = rnn"
  using assms by (cases a) (simp_all add: is_update_def)

text \<open>
  C4, as the code has it. For positive sizes and draws in \<open>[0, 1)\<close> the
  constructor returns a network whose \<open>U\<close>, \<open>V\<close> and \<open>W\<close> are the uniform draws
  from \<open>\<plusminus>1/\<surd>in_dim\<close> (\<open>in_dim\<close> is \<open>vocab_size\<close> for \<open>U\<close> and \<open>hidden_size\<close> for
  \<open>V\<close> and \<open>W\<close>), read from the stream in this order, and whose biases \<open>b\<close> and
  \<open>c\<close> are zero arrays; so every entry of \<open>U\<close>, \<open>V\<close>, \<open>W\<close> lies within its bound
  and every entry of \<open>b\<close> and \<open>c\<close> is \<open>0\<close>. No method other than
  \<^verbatim>\<open>update_model\<close> changes the object, so nothing is initialised again.
\<close>

theorem RNN_init_parameters:
  assumes "0 < hidden" and "0 < vocab" and "\<forall>k. 0 \<le> us k \<and> us k < 1"
  shows "\<exists>rnn. RNN_init hidden vocab sl lr us = Inr rnn \<and>
           pU rnn = uniform (- sqrt (1 / real vocab)) (sqrt (1 / real vocab)) hidden vocab us 0 \<and>
           pV rnn = uniform (- sqrt (1 / real hidden)) (sqrt (1 / real hidden)) vocab hidden us
                      (hidden * vocab) \<and>
           pW rnn = uniform (- sqrt (1 / real hidden)) (sqrt (1 / real hidden)) hidden hidden us
                      (hidden * vocab + vocab * hidden) \<and>
           pb rnn = zeros hidden 1 \<and> pc rnn = zeros vocab 1 \<and>
           mat_all (\<lambda>e. \<bar>e\<bar> \<le> sqrt (1 / real vocab)) (pU rnn) \<and>
           mat_all (\<lambda>e. \<bar>e\<bar> \<le> sqrt (1 / real hidden)) (pV rnn) \<and>
           mat_all (\<lambda>e. \<bar>e\<bar> \<le> sqrt (1 / real hidden)) (pW rnn) \<and>
           mat_all (\<lambda>e. e = 0) (pb rnn) \<and> mat_all (\<lambda>e. e = 0) (pc rnn) \<and>
           (\<forall>a. \<not> is_update a \<longrightarrow> after_op rnn a = rnn)"
proof -
  have b: "\<bar>- a + (a - - a) * us k\<bar> \<le> a" if "0 \<le> a" for a k
    using that assms(3) by (intro uniform_bound) simp_all
  have U: "mat_all (\<lambda>e. \<bar>e\<bar> \<le> sqrt (1 / real vocab))
             (uniform (- sqrt (1 / real vocab)) (sqrt (1 / real vocab)) r c us off)" for r c off
    by (rule mat_all_uniform) (rule b, simp)
  have H: "mat_all (\<lambda>e. \<bar>e\<bar> \<le> sqrt (1 / real hidden))
             (uniform (- sqrt (1 / real hidden)) (sqrt (1 / real hidden)) r c us off)" for r c off
    by (rule mat_all_uniform) (rule b, simp)
  show ?thesis
    using assms(1,2) U H by (simp add: RNN_init_def Let_def mat_all_zeros after_op_frame)
qed

theorem RNN_init_parameters_witness:
  "(0::nat) < 1 \<and> (0::nat) < 2 \<and> (\<forall>k. 0 \<le> draws34 k \<and> draws34 k < 1) \<and>
   (\<exists>rnn. RNN_init 1 2 3 (1 / 10) draws34 = Inr rnn \<and>
      pU rnn = [[sqrt (1 / 2) / 2, sqrt (1 / 2) / 2]] \<and> pV rnn = [[1 / 2], [1 / 2]] \<and>
      pW rnn = [[1 / 2]] \<and> pb rnn = [[0]] \<and> pc rnn = [[0], [0]])"
proof -
  have h: "\<forall>k. 0 \<le> draws34 k \<and> draws34 k < 1" by (simp add: draws34_def)
  from RNN_init_parameters [of 1 2 draws34 3 "1 / 10"] h
  obtain rnn where r: "RNN_init 1 2 3 (1 / 10) draws34 = Inr rnn"
    and "pU rnn = uniform (- sqrt (1 / real 2)) (sqrt (1 / real 2)) 1 2 draws34 0"
    and "pV rnn = uniform (- sqrt (1 / real 1)) (sqrt (1 / real 1)) 2 1 draws34 (1 * 2)"
    and "pW rnn = uniform (- sqrt (1 / real 1)) (sqrt (1 / real 1)) 1 1 draws34 (1 * 2 + 2 * 1)"
    and "pb rnn = zeros 1 1" and "pc rnn = zeros 2 1"
    by auto
  then have "pU rnn = [[sqrt (1 / 2) / 2, sqrt (1 / 2) / 2]] \<and> pV rnn = [[1 / 2], [1 / 2]] \<and>
      pW rnn = [[1 / 2]] \<and> pb rnn = [[0]] \<and> pc rnn = [[0], [0]]"
    by (simp add: uniform_def draws34_def zeros_def upt_rec numeral_2_eq_2)
  with r h show ?thesis by simp
qed

text \<open>
  C4, as the specification states it, fails: on a stream whose every draw yields the
  entry \<open>1/2\<close>, the biases of the network built are \<open>[[0]]\<close>, which no call of
  \<^verbatim>\<open>np.random.uniform\<close> on that stream returns.
\<close>

theorem biases_not_drawn:
  "(case RNN_init 1 1 1 (1 / 10) draws34 of
      Inl e \<Rightarrow> False
    | Inr rnn \<Rightarrow> \<not> drawn_uniform (sqrt (1 / real 1)) draws34 (pb rnn) \<and>
                 \<not> drawn_uniform (sqrt (1 / real 1)) draws34 (pc rnn))"
proof -
  have "\<not> drawn_uniform 1 draws34 [[0]]"
  proof
    assume "drawn_uniform 1 draws34 [[0]]"
    then obtain r c off where e: "[[0]] = uniform (- 1) 1 r c draws34 off"
      by (auto simp: drawn_uniform_def)
    have "mat_all (\<lambda>v. v = 1 / 2) (uniform (- 1) 1 r c draws34 off)"
      by (rule mat_all_uniform) (simp add: draws34_def)
    with e have "mat_all (\<lambda>v. v = 1 / 2) [[0]]" by simp
    then show False by (simp add: mat_all_def)
  qed
  then show ?thesis
    by (simp add: RNN_init_def Let_def zeros_def)
qed

text \<open>
  The memories of a network have the shapes of its parameters and no negative
  entry: the constructor builds them so, and every method keeps them so.
\<close>

lemma mat_all_nonneg_le:
  assumes "mat_all (\<lambda>m. 0 \<le> m) A" and "mat_le A B"
  shows "mat_all (\<lambda>m. 0 \<le> m) B"
proof -
  have row: "list_all (\<lambda>m. 0 \<le> m) b" if "list_all (\<lambda>m. 0 \<le> m) a" "list_all2 (\<le>) a b"
    for a b :: "real list"
    using that unfolding list_all_length list_all2_conv_all_nth
    by (metis order_trans)
  show ?thesis
    using assms unfolding mat_all_def mat_le_def list_all_length [of _ A] list_all_length [of _ B]
      list_all2_conv_all_nth [of _ A B]
    by (metis row)
qed

lemma mems_nonneg_after_op:
  assumes "mems_shaped rnn" "op_shaped rnn a" "mems_nonneg rnn"
  shows "mems_nonneg (after_op rnn a)"
  using assms(3) after_op_mem_le [OF assms(1,2)]
  unfolding mems_nonneg_def by (blast intro: mat_all_nonneg_le)

lemma RNN_init_mems:
  assumes "RNN_init hidden vocab sl lr us = Inr rnn"
  shows "mems_shaped rnn" and "mems_nonneg rnn"
proof -
  have z: "mat_all (\<lambda>m. 0 \<le> m) (zeros_like A)" for A
    by (simp add: mat_all_def zeros_like_def list_all_iff)
  from assms show "mems_shaped rnn"
    by (auto simp: RNN_init_def Let_def mems_shaped_def split: if_splits)
  from assms show "mems_nonneg rnn"
    by (auto simp: RNN_init_def Let_def mems_nonneg_def z split: if_splits)
qed

section \<open>Shapes\<close>

lemma for_each_append:
  "for_each (ts @ us) body s =
     (case for_each ts body s of Inl e \<Rightarrow> Inl e | Inr s' \<Rightarrow> for_each us body s')"
  by (induction ts arbitrary: s) (auto split: sum.splits)

lemma for_each_upt_invariant:
  assumes "I 0 s"
    and "\<And>t s. t < n \<Longrightarrow> I t s \<Longrightarrow> \<exists>s'. body s t = Inr s' \<and> I (Suc t) s'"
  shows "\<exists>s'. for_each [0..<n] body s = Inr s' \<and> I n s'"
  using assms(2)
proof (induction n)
  case 0
  with assms(1) show ?case by simp
next
  case (Suc n)
  then obtain s1 where s1: "for_each [0..<n] body s = Inr s1" "I n s1"
    by (metis less_Suc_eq)
  from Suc.prems [OF _ s1(2)] obtain s2 where "body s1 n = Inr s2" "I (Suc n) s2"
    by blast
  with s1 show ?case by (simp add: for_each_append)
qed

lemma has_shapeI:
  "length m = r \<Longrightarrow> (\<And>i. i < r \<Longrightarrow> length (m ! i) = c) \<Longrightarrow> has_shape r c m"
  by (simp add: has_shape_def list_all_length)

lemma has_shape_length: "has_shape r c m \<Longrightarrow> length m = r"
  by (simp add: has_shape_def)

lemma has_shape_row: "has_shape r c m \<Longrightarrow> i < r \<Longrightarrow> length (m ! i) = c"
  by (simp add: has_shape_def list_all_length)

lemma has_shape_zeros [simp]: "has_shape r c (zeros r c)"
  by (simp add: has_shape_def zeros_def list_all_iff)

lemma has_shape_mat_map [simp]: "has_shape r c (mat_map f m) = has_shape r c m"
  by (simp add: has_shape_def mat_map_def list_all_iff)

lemma has_shape_mat_add:
  assumes "has_shape r c A" "has_shape r c B"
  shows "has_shape r c (mat_add A B)"
  using assms has_shape_length [OF assms(1)] has_shape_length [OF assms(2)]
  by (intro has_shapeI) (simp_all add: mat_add_def has_shape_row)

lemma has_shape_transp:
  assumes "has_shape r c m" "0 < r"
  shows "has_shape c r (transp m)"
proof -
  from assms have ne: "m \<noteq> []" by (auto simp: has_shape_def)
  then have "length (hd m) = c"
    using has_shape_row [OF assms(1), of 0] assms(2) by (simp add: hd_conv_nth)
  with ne has_shape_length [OF assms(1)] show ?thesis
    by (intro has_shapeI) (simp_all add: transp_def)
qed

lemma has_shape_dot:
  assumes "length A = r" "has_shape k c B" "0 < k"
  shows "has_shape r c (dot A B)"
  using assms(1) has_shape_length [OF has_shape_transp [OF assms(2,3)]]
  by (intro has_shapeI) (simp_all add: dot_def)

lemma has_shape_set_row:
  assumes "has_shape r c x" "i < r"
  shows "\<exists>x'. set_row x i v = Inr x' \<and> has_shape r c x'"
proof -
  have "has_shape r c (x[i := map (\<lambda>_. v) (x ! i)])"
    using assms has_shape_length [OF assms(1)]
    by (intro has_shapeI) (simp_all add: nth_list_update has_shape_row)
  then show ?thesis
    using assms has_shape_length [OF assms(1)] by (simp add: set_row_def)
qed

lemma has_shape_concat: "has_shape r c m \<Longrightarrow> length (concat m) = r * c"
proof (induction m arbitrary: r)
  case Nil
  then show ?case by (simp add: has_shape_def)
next
  case (Cons a m)
  then obtain r' where r: "r = Suc r'" "has_shape r' c m" "length a = c"
    by (cases r) (auto simp: has_shape_def)
  with Cons.IH [of r'] show ?case by simp
qed

lemma has_shape_uniform [simp]: "has_shape r c (uniform low high r c us off)"
  by (simp add: has_shape_def uniform_def list_all_iff)

lemma RNN_init_wf:
  assumes "RNN_init hidden vocab sl lr us = Inr rnn"
  shows "wf_rnn rnn"
  using assms by (auto simp: RNN_init_def Let_def wf_rnn_def split: if_splits)

lemma has_shape_same_shape:
  assumes "has_shape r c A" "same_shape B A"
  shows "has_shape r c B"
  using assms same_shape_length [OF assms(2)] same_shape_row [OF assms(2)]
  by (intro has_shapeI) (simp_all add: has_shape_length has_shape_row)

lemma wf_rnn_after_op:
  assumes "wf_rnn rnn" "mems_shaped rnn" "op_shaped rnn a"
  shows "wf_rnn (after_op rnn a)"
proof (cases a)
  case (Update_model dU dW dV db dc)
  have keep: "hidden_size (update_model rnn dU dW dV db dc) = hidden_size rnn"
    "rnn_vocab_size (update_model rnn dU dW dV db dc) = rnn_vocab_size rnn"
    by (simp_all add: update_model_def Let_def split_beta)
  note sh = mems_shaped_update(2-6) [OF assms(2) assms(3) [unfolded Update_model]]
  from assms(1) show ?thesis
    unfolding Update_model after_op.simps wf_rnn_def keep
    by (blast intro: has_shape_same_shape sh)
qed (use assms(1) in simp_all)

section \<open>Generating text\<close>

lemma length_cumsum [simp]: "length (cumsum a p) = length p"
  by (induction p arbitrary: a) simp_all

lemma last_cumsum: "p \<noteq> [] \<Longrightarrow> last (cumsum a p) = a + sum_list p"
proof (induction p arbitrary: a)
  case Nil
  then show ?case by simp
next
  case (Cons q p)
  show ?case
  proof (cases "p = []")
    case True
    then show ?thesis by simp
  next
    case False
    then have "cumsum (a + q) p \<noteq> []"
      by (metis length_cumsum length_0_conv)
    with Cons.IH [OF False, of "a + q"] show ?thesis by (simp add: add.assoc)
  qed
qed

lemma takeWhile_short:
  assumes "xs \<noteq> []" "\<not> P (last xs)"
  shows "length (takeWhile P xs) < length xs"
proof (rule ccontr)
  assume "\<not> length (takeWhile P xs) < length xs"
  with length_takeWhile_le [of P xs] have "length (takeWhile P xs) = length xs" by simp
  then have "takeWhile P xs = xs"
    by (metis takeWhile_eq_take take_all order_refl)
  then have "\<forall>x\<in>set xs. P x" by simp
  with assms show False by (meson last_in_set)
qed

lemma random_choice_in_range:
  assumes "0 < k" "length p = k" "\<forall>q\<in>set p. 0 \<le> q" "sum_list p = 1" "u < 1"
  shows "\<exists>ix. random_choice k p u = Inr ix \<and> ix < k"
proof -
  have ne: "cumsum 0 p \<noteq> []" using assms(1,2) by (cases p) auto
  have "p \<noteq> []" using assms(1,2) by auto
  then have "last (cumsum 0 p) = 1" using assms(4) by (simp add: last_cumsum)
  with assms(5) have "\<not> last (cumsum 0 p) \<le> u" by simp
  with ne have "length (takeWhile (\<lambda>c. c \<le> u) (cumsum 0 p)) < length (cumsum 0 p)"
    by (rule takeWhile_short)
  moreover have "\<not> list_ex (\<lambda>q. q < 0) p"
    using assms(3) by (auto simp: list_ex_iff)
  ultimately show ?thesis
    using assms(1,2,4) by (simp add: random_choice_def)
qed

lemma recurrence_shape:
  assumes "wf_rnn rnn" "has_shape (hidden_size rnn) 1 h" "has_shape (rnn_vocab_size rnn) 1 x"
  shows "has_shape (hidden_size rnn) 1
           (mat_map tanh (mat_add (mat_add (dot (pU rnn) x) (dot (pW rnn) h)) (pb rnn)))"
proof -
  from assms(1) have H: "0 < hidden_size rnn" and V: "0 < rnn_vocab_size rnn"
    and U: "length (pU rnn) = hidden_size rnn" and W: "length (pW rnn) = hidden_size rnn"
    and b: "has_shape (hidden_size rnn) 1 (pb rnn)"
    by (simp_all add: wf_rnn_def has_shape_def)
  have "has_shape (hidden_size rnn) 1 (dot (pU rnn) x)"
    using U assms(3) V by (rule has_shape_dot)
  moreover have "has_shape (hidden_size rnn) 1 (dot (pW rnn) h)"
    using W assms(2) H by (rule has_shape_dot)
  ultimately show ?thesis
    using b by (simp add: has_shape_mat_add)
qed

lemma logits_shape:
  assumes "wf_rnn rnn" "has_shape (hidden_size rnn) 1 h"
  shows "has_shape (rnn_vocab_size rnn) 1 (mat_add (dot (pV rnn) h) (pc rnn))"
proof -
  from assms(1) have H: "0 < hidden_size rnn"
    and V: "length (pV rnn) = rnn_vocab_size rnn"
    and c: "has_shape (rnn_vocab_size rnn) 1 (pc rnn)"
    by (simp_all add: wf_rnn_def has_shape_def)
  have "has_shape (rnn_vocab_size rnn) 1 (dot (pV rnn) h)"
    using V assms(2) H by (rule has_shape_dot)
  then show ?thesis using c by (rule has_shape_mat_add)
qed

lemma mat_all_tanh: "mat_all (\<lambda>e. \<bar>e\<bar> < 1) (mat_map tanh m)"
  by (simp add: mat_all_def mat_map_def list_all_iff abs_less_iff tanh_real_lt_1
      tanh_real_gt_neg1)

lemma sample_step_ok:
  assumes "wf_rnn rnn" "has_shape (hidden_size rnn) 1 h" "has_shape (rnn_vocab_size rnn) 1 x"
    and "0 \<le> us t" "us t < 1" and "sampling_in_range rnn"
  shows "\<exists>h' x' ix. sample_step rnn us (h, x, ixes) t = Inr (h', x', ixes @ [ix]) \<and>
           ix < rnn_vocab_size rnn \<and> has_shape (hidden_size rnn) 1 h' \<and>
           has_shape (rnn_vocab_size rnn) 1 x'"
proof -
  let ?h = "mat_map tanh (mat_add (mat_add (dot (pU rnn) x) (dot (pW rnn) h)) (pb rnn))"
  let ?y = "mat_add (dot (pV rnn) ?h) (pc rnn)"
  let ?p = "map (map (\<lambda>e. np_div e (np_fsum (concat (map (map np_exp) ?y))))) (map (map np_exp) ?y)"
  have V: "0 < rnn_vocab_size rnn" using assms(1) by (simp add: wf_rnn_def)
  have h: "has_shape (hidden_size rnn) 1 ?h"
    using assms(1-3) by (rule recurrence_shape)
  have y: "has_shape (rnn_vocab_size rnn) 1 ?y"
    using assms(1) h by (rule logits_shape)
  have ly: "length (concat ?y) = rnn_vocab_size rnn"
    using has_shape_concat [OF y] by simp
  have "logits_in_range (concat ?y)"
    using assms(6) h mat_all_tanh unfolding sampling_in_range_def by blast
  from np_softmax_in_range [OF this] obtain qs
    where qs: "map (\<lambda>e. np_div e (np_fsum (map np_exp (concat ?y)))) (map np_exp (concat ?y)) =
                 map Fin qs"
      and lq: "length qs = length (concat ?y)" and nn: "\<forall>q\<in>set qs. 0 \<le> q"
      and one: "sum_list qs = 1"
    by blast
  have p: "concat ?p = map Fin qs"
    unfolding concat_map_map by (rule qs)
  from random_choice_in_range [OF V _ nn one assms(5)] lq ly obtain ix
    where ix: "random_choice (rnn_vocab_size rnn) qs (us t) = Inr ix" "ix < rnn_vocab_size rnn"
    by auto
  from has_shape_set_row [OF has_shape_zeros ix(2), of 1 1] obtain x'
    where x': "set_row (zeros (rnn_vocab_size rnn) 1) ix 1 = Inr x'"
      "has_shape (rnn_vocab_size rnn) 1 x'" by blast
  have "sample_step rnn us (h, x, ixes) t = Inr (?h, x', ixes @ [ix])"
    unfolding sample_step_def Let_def prod.case p np_random_choice_Fin ix(1) sum.case x'(1)
    by (rule refl)
  with ix(2) x'(2) h show ?thesis by blast
qed

lemma vocab_of_init: "vocab_of chars (DataReader_init txt chars sl)"
  by (simp add: vocab_of_def DataReader_init_def)

lemma vocab_of_next_batch:
  assumes "vocab_of chars r" "next_batch r = Inr (b, r')"
  shows "vocab_of chars r'"
  using assms by (auto simp: vocab_of_def next_batch_def Let_def split: sum.splits)

lemma vocab_char_to_ix:
  assumes "vocab_of chars r" "ch \<in> set chars"
  shows "\<exists>i. char_to_ix r ch = Some i \<and> i < length chars \<and> chars ! i = ch"
proof -
  let ?m = "map_of (rev (zip chars [0..<length chars]))"
  have "ch \<in> dom ?m" using assms(2) by (simp add: dom_char_to_ix)
  then obtain i where i: "?m ch = Some i" by auto
  then have "(ch, i) \<in> set (zip chars [0..<length chars])"
    using map_of_SomeD by fastforce
  then have "i < length chars \<and> chars ! i = ch"
    by (auto simp: in_set_zip)
  with i assms(1) show ?thesis by (simp add: vocab_of_def)
qed

lemma vocab_ix_to_char:
  assumes "vocab_of chars r" "i < length chars"
  shows "ix_to_char r i = Some (chars ! i)"
proof -
  let ?l = "rev (zip [0..<length chars] chars)"
  have "distinct (map fst ?l)" by (simp add: rev_map [symmetric] distinct_rev)
  moreover have "(i, chars ! i) \<in> set ?l"
    using assms(2) by (auto simp: in_set_zip intro!: exI [of _ i])
  ultimately have "map_of ?l i = Some (chars ! i)" by (rule map_of_is_SomeI)
  with assms(1) show ?thesis by (simp add: vocab_of_def)
qed

lemma lookup_all_nth:
  assumes "\<And>i. i < length ks \<Longrightarrow> d (ks ! i) = Some (f (ks ! i))"
  shows "lookup_all d ks = Inr (map f ks)"
  using assms
proof (induction ks)
  case Nil
  then show ?case by simp
next
  case (Cons k ks)
  have "d k = Some (f k)" using Cons.prems [of 0] by simp
  moreover have "lookup_all d ks = Inr (map f ks)"
    using Cons.prems [of "Suc i" for i] by (intro Cons.IH) simp
  ultimately show ?case by simp
qed

lemma has_shape_multi_hot [simp]: "has_shape v 1 (multi_hot v ixes)"
  by (simp add: has_shape_def multi_hot_def list_all_iff)

lemma multi_hot_Nil: "multi_hot v [] = zeros v 1"
  by (simp add: multi_hot_def zeros_def map_replicate_const)

lemma set_row_multi_hot:
  assumes "ix < v"
  shows "set_row (multi_hot v ixes) ix 1 = Inr (multi_hot v (ixes @ [ix]))"
proof -
  have "(multi_hot v ixes)[ix := map (\<lambda>_. 1) (multi_hot v ixes ! ix)] = multi_hot v (ixes @ [ix])"
    using assms by (intro nth_equalityI) (auto simp: multi_hot_def nth_list_update)
  with assms show ?thesis by (simp add: set_row_def multi_hot_def)
qed

lemma predict_seed_ok:
  assumes "vocab_of chars r" "set start \<subseteq> set chars" "rnn_vocab_size rnn = length chars"
  shows "\<exists>ixes. lookup_all (char_to_ix r) start = Inr ixes \<and>
           predict_seed rnn r start =
             Inr (multi_hot (rnn_vocab_size rnn) ixes, ixes, zeros (hidden_size rnn) 1) \<and>
           length ixes = length start \<and>
           (\<forall>i<length start. ixes ! i < length chars \<and> chars ! (ixes ! i) = start ! i)"
proof -
  define I where "I t s \<longleftrightarrow>
      fst s = multi_hot (rnn_vocab_size rnn) (snd s) \<and> length (snd s) = t \<and>
      (\<forall>i<t. char_to_ix r (start ! i) = Some (snd s ! i) \<and>
              snd s ! i < length chars \<and> chars ! (snd s ! i) = start ! i)"
    for t and s :: "mat \<times> nat list"
  have init: "I 0 (zeros (rnn_vocab_size rnn) 1, [])"
    by (simp add: I_def multi_hot_Nil)
  have step: "\<exists>s'. predict_seed_step r start s t = Inr s' \<and> I (Suc t) s'"
    if t: "t < length start" and s: "I t s" for t s
  proof -
    obtain x ixes where xs: "s = (x, ixes)" by (cases s)
    from t assms(2) have "start ! t \<in> set chars" by auto
    from vocab_char_to_ix [OF assms(1) this] obtain ix
      where ix: "char_to_ix r (start ! t) = Some ix" "ix < length chars" "chars ! ix = start ! t"
      by blast
    from s xs have x: "x = multi_hot (rnn_vocab_size rnn) ixes" by (simp add: I_def)
    have row: "set_row x ix 1 = Inr (multi_hot (rnn_vocab_size rnn) (ixes @ [ix]))"
      unfolding x using ix(2) assms(3) by (intro set_row_multi_hot) simp
    have "I (Suc t) (multi_hot (rnn_vocab_size rnn) (ixes @ [ix]), ixes @ [ix])"
      using s xs ix by (auto simp: I_def nth_append less_Suc_eq)
    with ix(1) row xs show ?thesis
      by (simp add: predict_seed_step_def)
  qed
  have "\<exists>s'. for_each [0..<length start] (predict_seed_step r start)
               (zeros (rnn_vocab_size rnn) 1, []) = Inr s' \<and> I (length start) s'"
    using init step by (rule for_each_upt_invariant)
  then obtain s'
    where s': "for_each [0..<length start] (predict_seed_step r start)
                 (zeros (rnn_vocab_size rnn) 1, []) = Inr s'" "I (length start) s'"
    by blast
  obtain x ixes where xi: "s' = (x, ixes)" by (cases s')
  with s'(2) have x: "x = multi_hot (rnn_vocab_size rnn) ixes" and len: "length ixes = length start"
    and ix: "\<forall>i<length start. char_to_ix r (start ! i) = Some (ixes ! i) \<and>
               ixes ! i < length chars \<and> chars ! (ixes ! i) = start ! i"
    by (simp_all add: I_def)
  have "lookup_all (char_to_ix r) start = Inr (map (\<lambda>c. the (char_to_ix r c)) start)"
    using ix by (intro lookup_all_nth) simp
  moreover have "map (\<lambda>c. the (char_to_ix r c)) start = ixes"
    using len ix by (intro nth_equalityI) simp_all
  ultimately have "lookup_all (char_to_ix r) start = Inr ixes" by simp
  with s'(1) xi x len ix show ?thesis
    by (auto simp: predict_seed_def)
qed

lemma sample_step_prefix:
  "sample_step rnn us (h, x, pre @ ixes) t =
     (case sample_step rnn us (h, x, ixes) t of
        Inl e \<Rightarrow> Inl e
      | Inr (h', x', g) \<Rightarrow> Inr (h', x', pre @ g))"
  by (simp add: sample_step_def Let_def split: sum.splits)

lemma for_each_sample_prefix:
  "for_each ts (sample_step rnn us) (h, x, pre @ ixes) =
     (case for_each ts (sample_step rnn us) (h, x, ixes) of
        Inl e \<Rightarrow> Inl e
      | Inr (h', x', g) \<Rightarrow> Inr (h', x', pre @ g))"
proof (induction ts arbitrary: h x ixes)
  case Nil
  then show ?case by simp
next
  case (Cons t ts)
  show ?case
  proof (cases "sample_step rnn us (h, x, ixes) t")
    case (Inl e)
    then show ?thesis by (simp add: sample_step_prefix)
  next
    case (Inr s)
    obtain h' x' g where "s = (h', x', g)" by (cases s)
    with Inr Cons.IH [of h' x' g] show ?thesis by (simp add: sample_step_prefix)
  qed
qed

lemma sample_loop_ok:
  assumes "wf_rnn rnn" "has_shape (hidden_size rnn) 1 h" "has_shape (rnn_vocab_size rnn) 1 x"
    and "\<forall>k. 0 \<le> us k \<and> us k < 1" and "sampling_in_range rnn"
  shows "\<exists>h' x' gen. for_each [0..<n] (sample_step rnn us) (h, x, []) = Inr (h', x', gen) \<and>
           length gen = n \<and> (\<forall>g\<in>set gen. g < rnn_vocab_size rnn)"
proof -
  define J where "J t s \<longleftrightarrow>
      has_shape (hidden_size rnn) 1 (fst s) \<and> has_shape (rnn_vocab_size rnn) 1 (fst (snd s)) \<and>
      length (snd (snd s)) = t \<and> (\<forall>g\<in>set (snd (snd s)). g < rnn_vocab_size rnn)"
    for t and s :: "mat \<times> mat \<times> nat list"
  have init: "J 0 (h, x, [])" using assms(2,3) by (simp add: J_def)
  have step: "\<exists>s'. sample_step rnn us s t = Inr s' \<and> J (Suc t) s'" if "J t s" for t s
  proof -
    obtain h1 x1 g1 where s: "s = (h1, x1, g1)" by (cases s)
    with that have sh: "has_shape (hidden_size rnn) 1 h1" "has_shape (rnn_vocab_size rnn) 1 x1"
      by (simp_all add: J_def)
    from assms(4) have u: "0 \<le> us t" "us t < 1" by simp_all
    from sample_step_ok [where us = us and t = t and ixes = g1, OF assms(1) sh u assms(5)]
    obtain h' x' ix
      where "sample_step rnn us (h1, x1, g1) t = Inr (h', x', g1 @ [ix])"
        "ix < rnn_vocab_size rnn" "has_shape (hidden_size rnn) 1 h'"
        "has_shape (rnn_vocab_size rnn) 1 x'" by blast
    with that s show ?thesis by (auto simp: J_def)
  qed
  have "\<exists>s'. for_each [0..<n] (sample_step rnn us) (h, x, []) = Inr s' \<and> J n s'"
    using init step by (rule for_each_upt_invariant)
  then obtain s'
    where s': "for_each [0..<n] (sample_step rnn us) (h, x, []) = Inr s'" "J n s'" by blast
  obtain h' x' gen where "s' = (h', x', gen)" by (cases s')
  with s' show ?thesis by (auto simp: J_def)
qed

lemma predict_step_eq: "predict_step rnn us = sample_step rnn us"
  by (simp add: fun_eq_iff predict_step_def sample_step_def)

lemma predict_as_sample_loop:
  assumes "predict_seed rnn r start = Inr (x, ixes, h)"
  shows "predict rnn r start n us =
           (case for_each [0..<n] (sample_step rnn us) (h, x, []) of
              Inl e \<Rightarrow> Inl e
            | Inr (h', x', gen) \<Rightarrow> lookup_all (ix_to_char r) (ixes @ gen))"
  using for_each_sample_prefix [of "[0..<n]" rnn us h x ixes "[]"] assms
  by (simp add: predict_def predict_step_eq split: sum.splits)

lemma predict_spec_single:
  assumes "lookup_all (char_to_ix r) start = Inr [i]"
  shows "predict_spec rnn r start n us =
           (case sample rnn (zeros (hidden_size rnn) 1) i n us of
              Inl e \<Rightarrow> Inl e
            | Inr gen \<Rightarrow> lookup_all (ix_to_char r) ([i] @ gen))"
  by (simp add: predict_spec_def assms forward_def)

text \<open>
  The runs of the examples: a round of \<^verbatim>\<open>sample\<close> in the network \<open>ab_rnn\<close>,
  \<^verbatim>\<open>predict\<close> and its description on the seed \<open>ab\<close>.
\<close>

lemma max_double_ge: "128 \<le> max_double"
proof -
  have "(1::real) \<le> 2 - 1 / 2 ^ 52" by simp
  then have "1 * (2::real) ^ 1023 \<le> (2 - 1 / 2 ^ 52) * 2 ^ 1023"
    by (intro mult_right_mono) simp_all
  moreover have "(2::real) ^ 7 \<le> 2 ^ 1023" by (intro power_increasing) simp_all
  ultimately show ?thesis by (simp add: max_double_def)
qed

lemma exp_4_le: "exp (4::real) \<le> 81"
proof -
  have "exp (1::real) ^ 4 \<le> 3 ^ 4" by (intro power_mono exp_le) simp
  moreover have "exp (1::real) ^ 4 = exp 4"
    using exp_of_nat_mult [of 4 "1::real"] by simp
  ultimately show ?thesis by simp
qed

lemma tiny_le: "(1::real) / 2 ^ 1075 \<le> 1 / 81"
proof -
  have "(2::real) ^ 7 \<le> 2 ^ 1075" by (intro power_increasing) simp_all
  then have "(81::real) \<le> 2 ^ 1075" by simp
  then show ?thesis by (intro divide_left_mono) simp_all
qed

lemma exp_4w_bounds:
  fixes w :: real
  assumes "\<bar>w\<bar> < 1"
  shows "1 / 2 ^ 1075 \<le> exp (4 * w)" and "exp (4 * w) \<le> 81"
proof -
  have "exp (4 * w) \<le> exp 4" using assms by simp
  with exp_4_le show "exp (4 * w) \<le> 81" by linarith
  have "exp (- 4) \<le> exp (4 * w)" using assms by simp
  moreover have "exp (- 4 :: real) = 1 / exp 4" by (simp add: exp_minus inverse_eq_divide)
  moreover have "1 / 81 \<le> 1 / exp (4::real)"
    using exp_4_le by (intro divide_left_mono) simp_all
  ultimately show "1 / 2 ^ 1075 \<le> exp (4 * w)" using tiny_le by linarith
qed

lemma two_logits:
  fixes e :: real
  assumes "e = exp v" "1 / 2 ^ 1075 \<le> e" "e \<le> 81"
  shows "map (\<lambda>a. np_div a (np_fsum [np_exp v, np_exp 0])) [np_exp v, np_exp 0] =
           map Fin [e / (e + 1), 1 - e / (e + 1)]"
proof -
  have pos: "0 < e" using assms(1) by simp
  have v: "np_exp v = Fin e"
    using assms max_double_ge by (simp add: np_exp_def)
  have "(1::real) / 2 ^ 1075 \<le> 1" by simp
  then have z: "np_exp 0 = Fin 1"
    using max_double_ge by (simp add: np_exp_def)
  have s: "np_fsum [Fin e, Fin 1] = Fin (e + 1)"
    using assms(3) max_double_ge by (simp add: np_fsum_def)
  have "1 / (e + 1) = 1 - e / (e + 1)"
    using pos by (simp add: field_simps)
  then show ?thesis
    unfolding v z s using pos by simp
qed

lemma choice_two:
  assumes "0 \<le> q" "q \<le> 1" "u < 1"
  shows "random_choice 2 [q, 1 - q] u = Inr (if q \<le> u then 1 else 0)"
  using assms by (simp add: random_choice_def)

lemma ab_step:
  assumes e: "e = exp (4 * tanh (x0 - x1))" and u: "us t < 1"
  shows "sample_step ab_rnn us ([[hv]], [[x0], [x1]], ixes) t =
           (if e / (e + 1) \<le> us t
            then Inr ([[tanh (x0 - x1)]], [[0], [1]], ixes @ [1])
            else Inr ([[tanh (x0 - x1)]], [[1], [0]], ixes @ [0]))"
proof -
  have w: "\<bar>tanh (x0 - x1)\<bar> < 1"
    by (simp add: abs_less_iff tanh_real_lt_1 tanh_real_gt_neg1)
  note b = exp_4w_bounds [OF w, folded e]
  have pos: "0 < e" using e by simp
  have q: "0 \<le> e / (e + 1)" "e / (e + 1) \<le> 1"
    using pos by (simp_all add: field_simps)
  have h: "mat_map tanh (mat_add (mat_add (dot (pU ab_rnn) [[x0], [x1]]) (dot (pW ab_rnn) [[hv]]))
             (pb ab_rnn)) = [[tanh (x0 - x1)]]"
    by (simp add: ab_rnn_def mat_map_def mat_add_def dot_def transp_def)
  have y: "mat_add (dot (pV ab_rnn) [[tanh (x0 - x1)]]) (pc ab_rnn) = [[4 * tanh (x0 - x1)], [0]]"
    by (simp add: ab_rnn_def mat_add_def dot_def transp_def)
  have p: "concat (map (map (\<lambda>a. np_div a (np_fsum (concat (map (map np_exp)
                 [[4 * tanh (x0 - x1)], [0]])))))
             (map (map np_exp) [[4 * tanh (x0 - x1)], [0]])) =
           map Fin [e / (e + 1), 1 - e / (e + 1)]"
    using two_logits [OF e b] by simp
  have V: "rnn_vocab_size ab_rnn = 2" by (simp add: ab_rnn_def)
  have rows: "set_row (zeros 2 (Suc 0)) 0 1 = Inr [[1], [0]]"
    "set_row (zeros 2 (Suc 0)) (Suc 0) 1 = Inr [[0], [1]]"
    by (simp_all add: set_row_def zeros_def eval_nat_numeral)
  show ?thesis
    unfolding sample_step_def Let_def prod.case h y p np_random_choice_Fin V
      choice_two [OF q u]
    by (simp add: rows)
qed

lemma exp_neg_2_le: "exp (- 2 :: real) \<le> 1 / 4"
proof -
  have "(2::real) \<le> exp 1" using exp_ge_add_one_self [of "1::real"] by simp
  then have "(2::real) * 2 \<le> exp 1 * exp 1" by (intro mult_mono) simp_all
  then have e2: "(4::real) \<le> exp 2" by (simp add: exp_add [symmetric])
  have "exp (- 2 :: real) = 1 / exp 2" by (simp add: exp_minus inverse_eq_divide)
  also have "\<dots> \<le> 1 / 4" using e2 by (intro divide_left_mono) simp_all
  finally show ?thesis .
qed

lemma tanh_1_ge: "3 / 5 \<le> tanh (1::real)"
proof -
  define q :: real where "q = exp (- 2)"
  have q: "0 < q" "q \<le> 1 / 4" using exp_neg_2_le by (simp_all add: q_def)
  have "tanh (1::real) = (1 - q) / (1 + q)"
    using tanh_real_altdef [of 1] by (simp add: q_def)
  moreover have "3 / 5 \<le> (1 - q) / (1 + q)"
  proof -
    have "3 / 5 * (1 + q) \<le> 1 - q" using q by simp
    moreover have "0 < 1 + q" using q by simp
    ultimately show ?thesis by (simp only: pos_le_divide_eq)
  qed
  ultimately show ?thesis by simp
qed

lemma exp_4_tanh_neg: "exp (4 * tanh (0 - 1 :: real)) \<le> 1 / 4"
proof -
  have "4 * tanh (0 - 1 :: real) \<le> - 2" using tanh_1_ge by simp
  then have "exp (4 * tanh (0 - 1 :: real)) \<le> exp (- 2)" by (simp only: exp_le_cancel_iff)
  with exp_neg_2_le show ?thesis by linarith
qed

lemma ab_reader_lookups:
  "char_to_ix ab_reader CHR ''a'' = Some 0"
  "char_to_ix ab_reader CHR ''b'' = Some (Suc 0)"
  "ix_to_char ab_reader 0 = Some CHR ''a''"
  "ix_to_char ab_reader (Suc 0) = Some CHR ''b''"
  by (simp_all add: ab_reader_def DataReader_init_def)

lemma ab_predict_seed:
  "predict_seed ab_rnn ab_reader ''ab'' = Inr ([[1], [1]], [0, Suc 0], [[0]])"
proof -
  have u: "[0..<2] = [0, Suc 0]" by (simp add: eval_nat_numeral)
  show ?thesis
    by (simp add: predict_seed_def predict_seed_step_def ab_rnn_def ab_reader_def
        DataReader_init_def set_row_def zeros_def u eval_nat_numeral)
qed

lemma ab_predict_round:
  "sample_step ab_rnn draws14 ([[0]], [[1], [1]], ixes) 0 =
     Inr ([[0]], [[1], [0]], ixes @ [0])"
  using ab_step [of 1 1 1 draws14 0 0 ixes] by (simp add: draws14_def)

lemma ab_predict: "predict ab_rnn ab_reader ''ab'' (Suc 0) draws14 = Inr ''aba''"
  unfolding predict_as_sample_loop [OF ab_predict_seed]
  by (simp add: ab_predict_round ab_reader_lookups)

lemma ab_spec_round:
  "sample_step ab_rnn draws14 ([[tanh 1]], [[0], [1]], ixes) 0 =
     Inr ([[- tanh 1]], [[0], [1]], ixes @ [Suc 0])"
proof -
  define e :: real where "e = exp (4 * tanh (0 - 1))"
  have e: "0 < e" "e \<le> 1 / 4" using exp_4_tanh_neg by (simp_all add: e_def)
  have "e / (e + 1) \<le> e / 1"
    using e by (intro divide_left_mono) simp_all
  with e have "e / (e + 1) \<le> 1 / 4" by simp
  with ab_step [of e 0 1 draws14 0 "tanh 1" ixes] show ?thesis
    by (simp add: draws14_def e_def)
qed

lemma ab_forward_one:
  "\<exists>xs ps. forward ab_rnn [0] (zeros (hidden_size ab_rnn) (Suc 0)) =
             Inr (xs, [- 1 \<mapsto> [[0]], 0 \<mapsto> [[tanh 1]]], ps)"
  by (simp add: forward_def forward_step_def ab_rnn_def set_row_def zeros_def Let_def
      dot_def transp_def mat_add_def mat_map_def softmax_def np_max_def eval_nat_numeral)

lemma ab_forward_two:
  "case forward ab_rnn [0, Suc 0] [[0]] of
     Inl e \<Rightarrow> False
   | Inr (xs, hs, ps) \<Rightarrow> hs 1 = Some [[- tanh 1]]"
proof -
  have u: "[0..<2] = [0, Suc 0]" by (simp add: eval_nat_numeral)
  show ?thesis
    by (simp add: forward_def forward_step_def ab_rnn_def set_row_def zeros_def Let_def
      dot_def transp_def mat_add_def mat_map_def softmax_def np_max_def u eval_nat_numeral)
qed

lemma ab_sample: "sample ab_rnn [[tanh 1]] (Suc 0) (Suc 0) draws14 = Inr [Suc 0]"
proof -
  have x: "set_row (zeros (rnn_vocab_size ab_rnn) 1) (Suc 0) 1 = Inr [[0], [1]]"
    by (simp add: set_row_def zeros_def ab_rnn_def eval_nat_numeral)
  show ?thesis
    unfolding sample_def x by (simp add: ab_spec_round)
qed

lemma ab_predict_spec: "predict_spec ab_rnn ab_reader ''ab'' (Suc 0) draws14 = Inr ''abb''"
proof -
  from ab_forward_one obtain xs ps
    where f: "forward ab_rnn [0] (zeros (hidden_size ab_rnn) (Suc 0)) =
                Inr (xs, [- 1 \<mapsto> [[0]], 0 \<mapsto> [[tanh 1]]], ps)" by blast
  show ?thesis
    by (simp add: predict_spec_def ab_reader_lookups f ab_sample)
qed

lemma wf_ab_rnn: "wf_rnn ab_rnn"
  by (simp add: wf_rnn_def ab_rnn_def has_shape_def)

lemma ab_in_range: "sampling_in_range ab_rnn"
  unfolding sampling_in_range_def
proof (intro allI impI)
  fix h :: mat
  assume "has_shape (hidden_size ab_rnn) 1 h \<and> mat_all (\<lambda>e. \<bar>e\<bar> < 1) h"
  then have sh: "has_shape 1 1 h" and b: "mat_all (\<lambda>e. \<bar>e\<bar> < 1) h"
    by (simp_all add: ab_rnn_def)
  from sh obtain a where h: "h = [[a]]"
    by (auto simp: has_shape_def length_Suc_conv)
  with b have a: "\<bar>a\<bar> < 1" by (simp add: mat_all_def)
  have y: "concat (mat_add (dot (pV ab_rnn) h) (pc ab_rnn)) = [4 * a, 0]"
    by (simp add: h ab_rnn_def mat_add_def dot_def transp_def)
  from exp_4w_bounds [OF a] max_double_ge show
    "logits_in_range (concat (mat_add (dot (pV ab_rnn) h) (pc ab_rnn)))"
    unfolding y by (simp add: logits_in_range_def)
qed

lemma wf_tiny_rnn: "wf_rnn tiny_rnn"
  by (simp add: wf_rnn_def tiny_rnn_def has_shape_def)

lemma wf_large_bias_rnn: "wf_rnn large_bias_rnn"
  by (simp add: wf_rnn_def large_bias_rnn_def has_shape_def)







section \<open>The backward pass\<close>

lemma acc_from_step: "j < n \<Longrightarrow> acc_from z f j n = mat_add (acc_from z f (Suc j) n) (f j)"
  by (simp add: acc_from_def upt_conv_Cons)

lemma acc_from_empty [simp]: "acc_from z f n n = z"
  by (simp add: acc_from_def)

lemma for_each_upt_partial:
  assumes "I 0 s"
    and "\<And>t s s'. t < n \<Longrightarrow> I t s \<Longrightarrow> body s t = Inr s' \<Longrightarrow> I (Suc t) s'"
    and "for_each [0..<n] body s = Inr s'"
  shows "I n s'"
  using assms(2,3)
proof (induction n arbitrary: s')
  case 0
  with assms(1) show ?case by simp
next
  case (Suc n)
  from Suc.prems(2) obtain s1 where s1: "for_each [0..<n] body s = Inr s1" "body s1 n = Inr s'"
    by (auto simp: for_each_append split: sum.splits)
  have "I n s1" using Suc.prems(1) s1(1) by (intro Suc.IH) auto
  with Suc.prems(1) [of n s1 s'] s1(2) show ?case by simp
qed

lemma softmax_length: "softmax x = Inr y \<Longrightarrow> length y = length x"
  by (auto simp: softmax_def Let_def mat_map_def split: sum.splits)

lemma forward_bundle:
  assumes "wf_rnn rnn" "forward rnn inputs hprev = Inr s"
  shows "bundle_ok (rnn_vocab_size rnn) (length inputs) s"
proof -
  have len: "length (mat_add (dot (pV rnn) h) (pc rnn)) = rnn_vocab_size rnn" for h
    using assms(1) by (simp add: wf_rnn_def has_shape_def mat_add_def dot_def)
  have init: "bundle_ok (rnn_vocab_size rnn) 0 (Map.empty, [-1 \<mapsto> hprev], Map.empty)"
    by (simp add: bundle_ok_def)
  have step: "bundle_ok (rnn_vocab_size rnn) (Suc t) s'"
    if "bundle_ok (rnn_vocab_size rnn) t s" "forward_step rnn inputs s t = Inr s'" for t s s'
  proof -
    obtain xs hs ps where s: "s = (xs, hs, ps)" by (cases s)
    from that(2) s obtain x h y where
      s': "s' = (xs(int t \<mapsto> x), hs(int t \<mapsto> h), ps(int t \<mapsto> y))"
      and y: "softmax (mat_add (dot (pV rnn) h) (pc rnn)) = Inr y"
      by (auto simp: forward_step_def Let_def split: sum.splits option.splits)
    from softmax_length [OF y] len have "length y = rnn_vocab_size rnn" by simp
    with that(1) s s' show ?thesis
      by (auto simp: bundle_ok_def less_Suc_eq)
  qed
  from init step assms(2) [unfolded forward_def] show ?thesis
    by (rule for_each_upt_partial [where I = "bundle_ok (rnn_vocab_size rnn)"])
qed


lemma backward_step_bptt_at:
  assumes "bundle_ok v (rnn_seq_length rnn) (xs, hs, ps)"
    and "length targets = rnn_seq_length rnn" and "\<forall>k\<in>set targets. k < v"
    and "j < rnn_seq_length rnn"
  shows "backward_step rnn xs hs ps targets (bptt_at rnn xs hs ps targets (Suc j)) j =
           Inr (bptt_at rnn xs hs ps targets j)"
proof -
  from assms(1,4) obtain p x h where p: "ps (int j) = Some p" "length p = v"
    and x: "xs (int j) = Some x" and h: "hs (int j) = Some h"
    by (auto simp: bundle_ok_def)
  have "hs (int j - 1) \<noteq> None"
  proof (cases j)
    case 0
    with assms(1) show ?thesis by (simp add: bundle_ok_def)
  next
    case (Suc i)
    then have "int j - 1 = int i" "i < rnn_seq_length rnn" using assms(4) by simp_all
    with assms(1) show ?thesis by (simp add: bundle_ok_def)
  qed
  then obtain hp where hp: "hs (int j - 1) = Some hp" by auto
  have tj: "targets ! j < length p" "\<not> length targets \<le> j"
    using assms(2-4) p(2) by simp_all
  have dy: "sub_row p (targets ! j) 1 = Inr (dy_spec ps targets j)"
    using tj(1) p(1) by (simp add: sub_row_def dy_spec_def)
  have raw: "dh_raw_spec rnn hs ps targets j =
      mat_mul (mat_map (\<lambda>v. 1 - v) (mat_mul h h))
       (mat_add (dot (transp (pV rnn)) (dy_spec ps targets j))
          (if rnn_seq_length rnn \<le> Suc j then zeros_like (the (hs 0))
           else dot (transp (pW rnn)) (dh_raw_spec rnn hs ps targets (Suc j))))"
    by (subst dh_raw_spec.simps) (simp add: h)
  have nj: "\<not> rnn_seq_length rnn \<le> j" using assms(4) by simp
  show ?thesis
    unfolding backward_step_def bptt_at_def Let_def prod.case p(1) option.case dy sum.case
      h x hp if_not_P [OF tj(2)] if_not_P [OF nj] acc_from_step [OF assms(4)]
      raw [symmetric] option.sel
    by (rule refl)
qed

lemma backward_loop:
  assumes "bundle_ok v (rnn_seq_length rnn) (xs, hs, ps)"
    and "length targets = rnn_seq_length rnn" and "\<forall>k\<in>set targets. k < v"
  shows "j \<le> rnn_seq_length rnn \<Longrightarrow>
         for_each (rev [0..<j]) (backward_step rnn xs hs ps targets)
           (bptt_at rnn xs hs ps targets j) = Inr (bptt_at rnn xs hs ps targets 0)"
proof (induction j)
  case 0
  then show ?case by simp
next
  case (Suc j)
  then have "j < rnn_seq_length rnn" by simp
  from backward_step_bptt_at [OF assms this] Suc show ?case by simp
qed

lemma mat_all_clip5: "mat_all (\<lambda>e. \<bar>e\<bar> \<le> 5) (clip (-5) 5 m)"
proof -
  have "\<bar>min 5 (max (- 5) e)\<bar> \<le> 5" for e :: real
    by (simp add: abs_le_iff min_def max_def)
  then show ?thesis
    by (simp add: mat_all_def clip_def mat_map_def list_all_iff)
qed

text \<open>
  C1, as the code has it. Let the window have \<open>seq_length \<ge> 1\<close> steps, let the
  network have the constructor's shapes, let \<open>xs\<close>, \<open>hs\<close>, \<open>ps\<close> be what
  \<^verbatim>\<open>forward\<close> returns on \<open>seq_length\<close> inputs and a previous hidden state of
  \<open>hidden_size\<close> rows, and let \<open>targets\<close> be \<open>seq_length\<close> indices below \<open>vocab_size\<close>. Then \<^verbatim>\<open>backward\<close> returns the five gradients of the
  recurrence \<open>bptt_spec\<close>, and no entry of a returned gradient exceeds \<open>5\<close> in
  absolute value.
\<close>

theorem backward_bptt:
  assumes "wf_rnn rnn" and "0 < rnn_seq_length rnn"
    and "length inputs = rnn_seq_length rnn"
    and "forward rnn inputs hprev = Inr (xs, hs, ps)"
    and "length targets = rnn_seq_length rnn"
    and "\<forall>k\<in>set targets. k < rnn_vocab_size rnn"
    and "has_shape (hidden_size rnn) 1 hprev"
  shows "\<exists>dU dW dV db dc.
           backward rnn xs hs ps targets = Inr (dU, dW, dV, db, dc) \<and>
           (dU, dW, dV, db, dc) = bptt_spec rnn xs hs ps targets \<and>
           mat_all (\<lambda>e. \<bar>e\<bar> \<le> 5) dU \<and> mat_all (\<lambda>e. \<bar>e\<bar> \<le> 5) dW \<and>
           mat_all (\<lambda>e. \<bar>e\<bar> \<le> 5) dV \<and> mat_all (\<lambda>e. \<bar>e\<bar> \<le> 5) db \<and>
           mat_all (\<lambda>e. \<bar>e\<bar> \<le> 5) dc"
proof -
  from forward_bundle [OF assms(1,4)] assms(3)
  have ok: "bundle_ok (rnn_vocab_size rnn) (rnn_seq_length rnn) (xs, hs, ps)" by simp
  with assms(2) obtain h0 where h0: "hs 0 = Some h0"
    by (auto simp: bundle_ok_def dest: spec [of _ 0])
  have start: "bptt_at rnn xs hs ps targets (rnn_seq_length rnn) =
      (zeros_like (pU rnn), zeros_like (pW rnn), zeros_like (pV rnn),
       zeros_like (pb rnn), zeros_like (pc rnn), zeros_like h0)"
    by (simp add: bptt_at_def h0)
  from backward_loop [OF ok assms(5,6) order_refl]
  have loop: "for_each (rev [0..<rnn_seq_length rnn]) (backward_step rnn xs hs ps targets)
           (zeros_like (pU rnn), zeros_like (pW rnn), zeros_like (pV rnn),
            zeros_like (pb rnn), zeros_like (pc rnn), zeros_like h0) =
         Inr (bptt_at rnn xs hs ps targets 0)"
    by (simp only: start)
  have "backward rnn xs hs ps targets = Inr (bptt_spec rnn xs hs ps targets)"
    unfolding backward_def h0 option.case loop sum.case
    by (simp add: bptt_at_def bptt_spec_def Let_def)
  then show ?thesis
    by (simp add: bptt_spec_def Let_def mat_all_clip5)
qed

theorem backward_bptt_witness:
  "wf_rnn tiny_rnn \<and> 0 < rnn_seq_length tiny_rnn \<and> length [0::nat] = rnn_seq_length tiny_rnn \<and>
   forward tiny_rnn [0] [[0]] =
     Inr ([0 \<mapsto> [[1], [0]]], [- 1 \<mapsto> [[0]], 0 \<mapsto> [[0]]], [0 \<mapsto> [[1 / 2], [1 / 2]]]) \<and>
   length [1::nat] = rnn_seq_length tiny_rnn \<and> list_all (\<lambda>k. k < rnn_vocab_size tiny_rnn) [1] \<and>
   has_shape (hidden_size tiny_rnn) 1 [[0]] \<and>
   backward tiny_rnn [0 \<mapsto> [[1], [0]]] [- 1 \<mapsto> [[0]], 0 \<mapsto> [[0]]] [0 \<mapsto> [[1 / 2], [1 / 2]]] [1] =
     Inr ([[0, 0]], [[0]], [[0], [0]], [[0]], [[1 / 2], [- 1 / 2]]) \<and>
   bptt_spec tiny_rnn [0 \<mapsto> [[1], [0]]] [- 1 \<mapsto> [[0]], 0 \<mapsto> [[0]]] [0 \<mapsto> [[1 / 2], [1 / 2]]] [1] =
     ([[0, 0]], [[0]], [[0], [0]], [[0]], [[1 / 2], [- 1 / 2]])"
proof -
  have h2: "0 < rnn_seq_length tiny_rnn" and h3: "length [0::nat] = rnn_seq_length tiny_rnn"
    and h5: "length [1::nat] = rnn_seq_length tiny_rnn"
    and h6: "\<forall>k\<in>set [1]. k < rnn_vocab_size tiny_rnn"
    by (simp_all add: tiny_rnn_def)
  have h7: "has_shape (hidden_size tiny_rnn) 1 [[0]]"
    by (simp add: tiny_rnn_def has_shape_def)
  have h4: "forward tiny_rnn [0] [[0]] =
     Inr ([0 \<mapsto> [[1], [0]]], [- 1 \<mapsto> [[0]], 0 \<mapsto> [[0]]], [0 \<mapsto> [[1 / 2], [1 / 2]]])"
    by (simp add: forward_def forward_step_def tiny_rnn_def set_row_def zeros_def Let_def
        dot_def transp_def mat_add_def mat_map_def softmax_def np_max_def np_sum_def
        eval_nat_numeral)
  have v: "backward tiny_rnn [0 \<mapsto> [[1], [0]]] [- 1 \<mapsto> [[0]], 0 \<mapsto> [[0]]]
             [0 \<mapsto> [[1 / 2], [1 / 2]]] [1] =
           Inr ([[0, 0]], [[0]], [[0], [0]], [[0]], [[1 / 2], [- 1 / 2]])"
    by (simp add: backward_def backward_step_def tiny_rnn_def sub_row_def zeros_like_def Let_def
        dot_def transp_def mat_add_def mat_mul_def mat_map_def clip_def eval_nat_numeral)
  from backward_bptt [OF wf_tiny_rnn h2 h3 h4 h5 h6 h7] v
  have "bptt_spec tiny_rnn [0 \<mapsto> [[1], [0]]] [- 1 \<mapsto> [[0]], 0 \<mapsto> [[0]]]
          [0 \<mapsto> [[1 / 2], [1 / 2]]] [1] =
        ([[0, 0]], [[0]], [[0], [0]], [[0]], [[1 / 2], [- 1 / 2]])"
    by auto
  moreover have "list_all (\<lambda>k. k < rnn_vocab_size tiny_rnn) [1]"
    using h6 by simp
  ultimately show ?thesis
    using wf_tiny_rnn h2 h3 h4 h5 h7 v by blast
qed

text \<open>
  C1, as the specification states it, fails for windows of length zero: the forward pass
  over no input returns a dict of hidden states that holds the key \<open>-1\<close> only, and
  \<^verbatim>\<open>backward\<close> raises \<^verbatim>\<open>KeyError\<close> when it reads \<^verbatim>\<open>hs[0]\<close>.
\<close>

theorem backward_zero_window_raises:
  "forward zero_window_rnn [] [[0]] = Inr (Map.empty, [- 1 \<mapsto> [[0]]], Map.empty) \<and>
   backward zero_window_rnn Map.empty [- 1 \<mapsto> [[0]]] Map.empty [] = Inl KeyError"
  by (simp add: forward_def backward_def)

end
